theory Spec2Isabelle
  imports Complex_Main "HOL-Library.Word"
begin

section \<open>JavaScript strings and primitive values\<close>

text \<open>
  A JavaScript string is a sequence of 16-bit code units, and \<open>length\<close> counts code
  units; the model keeps that. \<open>lit\<close> embeds an ASCII literal.
\<close>

type_synonym jschar = "16 word"
type_synonym jsstring = "jschar list"

definition lit :: "string \<Rightarrow> jsstring" where
  "lit s = map of_char s"

text \<open>
  The class \<open>\s\<close> of a regular expression and the characters removed by \<open>trim\<close> are the
  same set: the white space and line terminator code units of ECMAScript.
\<close>

definition isWhite :: "jschar \<Rightarrow> bool" where
  "isWhite c \<longleftrightarrow>
     c = 0x9 \<or> c = 0xA \<or> c = 0xB \<or> c = 0xC \<or> c = 0xD \<or> c = 0x20 \<or> c = 0xA0 \<or>
     c = 0x1680 \<or> (0x2000 \<le> c \<and> c \<le> 0x200A) \<or> c = 0x2028 \<or> c = 0x2029 \<or>
     c = 0x202F \<or> c = 0x205F \<or> c = 0x3000 \<or> c = 0xFEFF"

definition isLineBreak :: "jschar \<Rightarrow> bool" where
  "isLineBreak c \<longleftrightarrow> c = 0xA \<or> c = 0xD"

text \<open>The class \<open>[\.\?\!]\<close> of the lookbehind.\<close>

definition isSentenceEnd :: "jschar \<Rightarrow> bool" where
  "isSentenceEnd c \<longleftrightarrow> c = 0x2E \<or> c = 0x3F \<or> c = 0x21"

text \<open>The class \<open>[-\<bullet>\s]\<close>: hyphen, the bullet U+2022, white space.\<close>

definition isBullet :: "jschar \<Rightarrow> bool" where
  "isBullet c \<longleftrightarrow> c = 0x2D \<or> c = 0x2022 \<or> isWhite c"

definition trim :: "jsstring \<Rightarrow> jsstring" where
  "trim s = rev (dropWhile isWhite (rev (dropWhile isWhite s)))"

section \<open>PointExtractor\<close>

text \<open>
  \<open>text.split(/\n|\r|(?<=[\.\?\!])\s+/)\<close>. The split walks the string; at each position
  the alternatives are tried in order: a single line feed, a single carriage return, or
  a greedy run of white space whose preceding code unit is a sentence end. The boolean
  says whether the code unit before the current position is a sentence end. Every match
  is non-empty, so each one closes the current piece; the last piece is what remains.
  The result of \<open>splitPoints\<close> is never empty; \<open>consPiece\<close> puts a code unit in front of
  its first piece.
\<close>

fun consPiece :: "'a \<Rightarrow> 'a list list \<Rightarrow> 'a list list" where
  "consPiece c [] = [[c]]"
| "consPiece c (f # fs) = (c # f) # fs"

function splitPoints :: "bool \<Rightarrow> jsstring \<Rightarrow> jsstring list" where
  "splitPoints b [] = [[]]"
| "splitPoints b (c # cs) =
     (if isLineBreak c then [] # splitPoints False cs
      else if b \<and> isWhite c then [] # splitPoints False (dropWhile isWhite cs)
      else consPiece c (splitPoints (isSentenceEnd c) cs))"
  by pat_completeness auto
termination
  by (relation "measure (\<lambda>(b, cs). length cs)")
     (auto simp: less_Suc_eq_le length_dropWhile_le)

text \<open>
  \<open>extractPoints\<close>: \<open>None\<close> is a null or undefined argument; \<open>!text\<close> also holds of the
  empty string.
\<close>

definition extractPoints :: "jsstring option \<Rightarrow> jsstring list" where
  "extractPoints text =
     (case text of
        None \<Rightarrow> []
      | Some t \<Rightarrow>
          if t = [] then []
          else
            let raw = map (dropWhile isBullet)
                        (filter (\<lambda>s. s \<noteq> []) (map trim (splitPoints False t)))
            in filter (\<lambda>s. length s > 20) raw)"

text \<open>
  \<open>inOrder fs s\<close>: the strings \<open>fs\<close> occur in \<open>s\<close> as contiguous, non-overlapping
  substrings, in this order from left to right.
\<close>

inductive inOrder :: "'a list list \<Rightarrow> 'a list \<Rightarrow> bool" where
  inOrder_Nil: "inOrder [] s"
| inOrder_Cons: "inOrder fs post \<Longrightarrow> inOrder (f # fs) (pre @ f @ post)"


section \<open>Primitive values and coercions\<close>

text \<open>
  The values read from a property that holds an identifier: an absent property,
  \<open>null\<close>, a number or a string. \<open>Num n\<close> is an integral Number (identifiers that are
  safe integers); \<open>jsString\<close> is the coercion \<open>String(v)\<close>.
\<close>

datatype jsval = Undefined | Null | Num int | Str jsstring

definition truthy :: "jsval \<Rightarrow> bool" where
  "truthy v = (case v of Undefined \<Rightarrow> False | Null \<Rightarrow> False | Num n \<Rightarrow> n \<noteq> 0 | Str s \<Rightarrow> s \<noteq> [])"

text \<open>\<open>a || b\<close> and \<open>a ?? b\<close> on such values.\<close>

definition jsOr :: "jsval \<Rightarrow> jsval \<Rightarrow> jsval" where
  "jsOr a b = (if truthy a then a else b)"

definition jsNullish :: "jsval \<Rightarrow> jsval \<Rightarrow> jsval" where
  "jsNullish a b = (if a = Undefined \<or> a = Null then b else a)"

text \<open>The decimal digit of a number below ten, and the decimal numeral of a natural number.\<close>

definition digit :: "nat \<Rightarrow> jschar" where
  "digit n = of_nat (48 + n)"

function digitsOf :: "nat \<Rightarrow> jsstring" where
  "digitsOf n = (if n < 10 then [digit n] else digitsOf (n div 10) @ [digit (n mod 10)])"
  by pat_completeness auto
termination
  by (relation "measure id") auto

declare digitsOf.simps [simp del]

definition showInt :: "int \<Rightarrow> jsstring" where
  "showInt i = (if i < 0 then 0x2D # digitsOf (nat (- i)) else digitsOf (nat i))"

definition jsString :: "jsval \<Rightarrow> jsstring" where
  "jsString v = (case v of Undefined \<Rightarrow> lit ''undefined'' | Null \<Rightarrow> lit ''null''
                 | Num n \<Rightarrow> showInt n | Str s \<Rightarrow> s)"

text \<open>
  A property that holds text is a \<open>jsstring option\<close>: \<open>None\<close> when the property is
  absent. \<open>strOr a b\<close> is \<open>a || b\<close> with a string default: the empty string is falsy.
\<close>

definition truthyStr :: "jsstring option \<Rightarrow> bool" where
  "truthyStr a = (case a of None \<Rightarrow> False | Some s \<Rightarrow> s \<noteq> [])"

definition strOr :: "jsstring option \<Rightarrow> jsstring \<Rightarrow> jsstring" where
  "strOr a b = (case a of None \<Rightarrow> b | Some s \<Rightarrow> if s \<noteq> [] then s else b)"

text \<open>
  \<open>toLowerCase\<close> maps the code units \<open>A\<close> to \<open>Z\<close> to \<open>a\<close> to \<open>z\<close>. The letters outside
  ASCII, which ECMAScript also maps, are left as they are.
\<close>

definition toLowerCase :: "jsstring \<Rightarrow> jsstring" where
  "toLowerCase s = map (\<lambda>c. if 0x41 \<le> c \<and> c \<le> 0x5A then c + 0x20 else c) s"

text \<open>
  A property that should hold an array: \<open>Falsy\<close> when it is absent, \<open>null\<close> or another
  falsy value, \<open>NonArray\<close> when it holds a truthy value that is not an array (an object,
  a non-empty string, a non-zero number), \<open>Arr xs\<close> when it holds the array \<open>xs\<close>.
  Calling an array method on a \<open>NonArray\<close> value raises \<open>TypeError\<close>.
\<close>

datatype 'a field = Falsy | NonArray | Arr "'a list"

datatype error = TypeError

text \<open>
  A paper as the search backend returns it. Every record field below carries a short
  prefix naming its record: the property \<open>id\<close> of a paper is \<open>p_id\<close>.
\<close>

record paper =
  p_id :: jsval
  p_paper_id :: jsval
  p_doi :: jsval
  p_title :: "jsstring option"
  p_name :: "jsstring option"
  p_abstract :: "jsstring option"
  p_summary :: "jsstring option"


section \<open>The comparison result\<close>

text \<open>
  An entry of a metrics matrix as JSON delivers it: \<open>null\<close>, a number (its exact
  rational value), a string or a boolean. A row of a matrix is an array or \<open>null\<close>.
\<close>

datatype simval = SimNull | SimNum rat | SimStr jsstring | SimBool bool

type_synonym matrix = "simval list option list"

record backendPaper =
  bp_paper_id :: jsval
  bp_paperId :: jsval
  bp_summary :: "jsstring option"

record metricsRec =
  mt_embedding_similarity :: "matrix option"
  mt_keyword_overlap :: "matrix option"

record node =
  n_id :: jsstring
  n_title :: jsstring

record metaRec =
  m_similarity :: simval
  m_shared_keywords :: "jsstring list"

record evidenceRec =
  ev_ref_id :: jsstring
  ev_label :: jsstring
  ev_meta :: metaRec

record edge =
  e_source :: jsstring
  e_target :: jsstring
  e_relation :: jsstring
  e_evidence :: "evidenceRec list"

record graph =
  g_nodes :: "node field"
  g_edges :: "edge field"

record compareResult =
  cr_papers :: "backendPaper field"
  cr_evidence_graph :: "graph option"
  cr_metrics :: "metricsRec option"

section \<open>EvidenceGraphBuilder\<close>

text \<open>
  \<open>x.toFixed(3)\<close> for a number of magnitude below \<open>10^21\<close>: the integer \<open>n\<close> nearest to
  \<open>|x| * 1000\<close>, the larger one on a tie, written with three decimals behind the sign.
\<close>

definition pad3 :: "nat \<Rightarrow> jsstring" where
  "pad3 n = [digit (n div 100 mod 10), digit (n div 10 mod 10), digit (n mod 10)]"

definition toFixed3 :: "rat \<Rightarrow> jsstring" where
  "toFixed3 x =
     (let n = nat \<lfloor>\<bar>x\<bar> * 1000 + 1 / 2\<rfloor>
      in (if x < 0 then [0x2D] else []) @ digitsOf (n div 1000) @ [0x2E] @ pad3 (n mod 1000))"

text \<open>
  \<open>`Semantic similarity ${sim.toFixed ? sim.toFixed(3) : String(sim)}`\<close>: reading the
  property \<open>toFixed\<close> of \<open>null\<close> raises; a number has the method; a string or a boolean
  has not, and is coerced.
\<close>

definition simLabel :: "simval \<Rightarrow> error + jsstring" where
  "simLabel sim =
     (case sim of
        SimNull \<Rightarrow> Inl TypeError
      | SimNum x \<Rightarrow> Inr (lit ''Semantic similarity '' @ toFixed3 x)
      | SimStr s \<Rightarrow> Inr (lit ''Semantic similarity '' @ s)
      | SimBool b \<Rightarrow> Inr (lit ''Semantic similarity '' @ (if b then lit ''true'' else lit ''false'')))"

text \<open>
  \<open>emb && emb[i] && typeof emb[i][j] !== 'undefined'\<close>: \<open>entry emb i j\<close> is \<open>Some v\<close> when
  the test holds, with \<open>v\<close> the value \<open>emb[i][j]\<close>. A read beyond the end of an array is
  \<open>undefined\<close>.
\<close>

definition entry :: "matrix option \<Rightarrow> nat \<Rightarrow> nat \<Rightarrow> simval option" where
  "entry emb i j =
     (case emb of
        None \<Rightarrow> None
      | Some rows \<Rightarrow>
          if i < length rows then
            (case rows ! i of
               None \<Rightarrow> None
             | Some row \<Rightarrow> if j < length row then Some (row ! j) else None)
          else None)"

text \<open>
  The body of the inner loop: one evidence record \<open>ev\<close>, pushed on two edges, or the
  exception. \<open>shared\<close> is the empty array in either branch of the keyword test.
\<close>

definition twoEdges :: "node list \<Rightarrow> nat \<Rightarrow> nat \<Rightarrow> simval \<Rightarrow> jsstring \<Rightarrow> edge list" where
  "twoEdges ns i j sim lbl =
     (let ev = [\<lparr>ev_ref_id = lit ''client:semantic:'' @ digitsOf i @ [0x2D] @ digitsOf j,
                  ev_label = lbl,
                  ev_meta = \<lparr>m_similarity = sim, m_shared_keywords = []\<rparr>\<rparr>]
      in [\<lparr>e_source = n_id (ns ! i), e_target = n_id (ns ! j),
            e_relation = lit ''semantic_similarity'', e_evidence = ev\<rparr>,
          \<lparr>e_source = n_id (ns ! j), e_target = n_id (ns ! i),
            e_relation = lit ''semantic_similarity'', e_evidence = ev\<rparr>])"

definition pairEdges :: "matrix option \<Rightarrow> matrix option \<Rightarrow> node list \<Rightarrow> nat \<Rightarrow> nat \<Rightarrow> error + edge list" where
  "pairEdges emb kw ns i j =
     (case (case entry emb i j of
              None \<Rightarrow> Inr (SimNull, lit ''Semantic relation'')
            | Some v \<Rightarrow> (case simLabel v of Inl e \<Rightarrow> Inl e | Inr l \<Rightarrow> Inr (v, l))) of
        Inl e \<Rightarrow> Inl e
      | Inr (sim, lbl) \<Rightarrow>
          let shared = (case entry kw i j of None \<Rightarrow> [] | Some v \<Rightarrow> []);
              ev = [\<lparr>ev_ref_id = lit ''client:semantic:'' @ digitsOf i @ [0x2D] @ digitsOf j,
                     ev_label = lbl,
                     ev_meta = \<lparr>m_similarity = sim, m_shared_keywords = shared\<rparr>\<rparr>]
          in Inr [\<lparr>e_source = n_id (ns ! i), e_target = n_id (ns ! j),
                   e_relation = lit ''semantic_similarity'', e_evidence = ev\<rparr>,
                  \<lparr>e_source = n_id (ns ! j), e_target = n_id (ns ! i),
                   e_relation = lit ''semantic_similarity'', e_evidence = ev\<rparr>])"

text \<open>
  The two nested loops visit the pairs \<open>indexPairs k\<close> in this order, with \<open>k\<close> the number
  of nodes, so every index read is in range; an exception ends the run.
\<close>

definition indexPairs :: "nat \<Rightarrow> (nat \<times> nat) list" where
  "indexPairs k = concat (map (\<lambda>i. map (Pair i) [Suc i..<k]) [0..<k])"

fun edgesLoop :: "matrix option \<Rightarrow> matrix option \<Rightarrow> node list \<Rightarrow> (nat \<times> nat) list \<Rightarrow> error + edge list" where
  "edgesLoop emb kw ns [] = Inr []"
| "edgesLoop emb kw ns ((i, j) # ps) =
     (case pairEdges emb kw ns i j of
        Inl e \<Rightarrow> Inl e
      | Inr es \<Rightarrow> (case edgesLoop emb kw ns ps of Inl e \<Rightarrow> Inl e | Inr rest \<Rightarrow> Inr (es @ rest)))"

definition nodeOf :: "paper \<Rightarrow> node" where
  "nodeOf s = \<lparr>n_id = jsString (p_id s),
               n_title = strOr (p_title s) (strOr (p_name s) (jsString (p_id s)))\<rparr>"

text \<open>
  \<open>metrics = compareResult.metrics || {}\<close>, \<open>emb = metrics.embedding_similarity || null\<close>
  and \<open>kw = metrics.keyword_overlap || null\<close>.
\<close>

definition embOf :: "compareResult \<Rightarrow> matrix option" where
  "embOf c = (case cr_metrics c of None \<Rightarrow> None | Some m \<Rightarrow> mt_embedding_similarity m)"

definition kwOf :: "compareResult \<Rightarrow> matrix option" where
  "kwOf c = (case cr_metrics c of None \<Rightarrow> None | Some m \<Rightarrow> mt_keyword_overlap m)"

definition synthesize :: "compareResult \<Rightarrow> paper list \<Rightarrow> error + graph" where
  "synthesize c selected =
     (let ns = map nodeOf selected
      in case edgesLoop (embOf c) (kwOf c) ns (indexPairs (length ns)) of
           Inl e \<Rightarrow> Inl e
         | Inr es \<Rightarrow> Inr \<lparr>g_nodes = Arr ns, g_edges = Arr es\<rparr>)"

text \<open>The backend's graph when its \<open>edges\<close> is a non-empty array.\<close>

definition backendGraph :: "compareResult \<Rightarrow> graph option" where
  "backendGraph c =
     (case cr_evidence_graph c of
        None \<Rightarrow> None
      | Some g \<Rightarrow> (case g_edges g of Arr es \<Rightarrow> if length es > 0 then Some g else None
                                     | _ \<Rightarrow> None))"

text \<open>
  \<open>buildFallbackEvidenceGraph\<close> reads the component state \<open>compareResult\<close> (\<open>None\<close> when
  it is \<open>null\<close>) and \<open>selected\<close>; the model takes both as arguments.
\<close>

definition buildFallbackEvidenceGraph :: "compareResult option \<Rightarrow> paper list \<Rightarrow> error + graph" where
  "buildFallbackEvidenceGraph compareResult selected =
     (case compareResult of
        None \<Rightarrow> Inr \<lparr>g_nodes = Arr [], g_edges = Arr []\<rparr>
      | Some c \<Rightarrow>
          (case backendGraph c of
             Some g \<Rightarrow> Inr g
           | None \<Rightarrow> synthesize c selected))"

section \<open>DiffEngine\<close>

record aligned =
  a_id :: jsstring
  a_title :: "jsstring option"
  a_text :: jsstring

text \<open>A value of \<open>sentenceMap\<close>: the display text and the set of owning papers, in insertion order.\<close>

record point =
  pt_text :: jsstring
  pt_papers :: "jsstring list"

type_synonym sentenceMap = "(jsstring \<times> point) list"

text \<open>
  The result: \<open>unique\<close> is an object used as a dictionary from paper id to points; the
  model keeps its own properties as an association list, in the order of their
  creation (which is not the order in which the object enumerates integer-like names;
  no claim depends on it). The inherited accessor \<open>__proto__\<close> of a plain object is not
  modelled: a paper whose id is that string is outside the model.
\<close>

record diffs =
  common :: "jsstring list"
  unique :: "(jsstring \<times> jsstring list) list"

definition per :: "backendPaper \<Rightarrow> jsstring \<times> jsstring" where
  "per p = (jsString (jsOr (bp_paper_id p) (jsOr (bp_paperId p) (jsOr (bp_paper_id p) (bp_paper_id p)))),
            strOr (bp_summary p) [])"

definition align :: "(jsstring \<times> jsstring) list \<Rightarrow> paper \<Rightarrow> aligned" where
  "align pers s =
     \<lparr>a_id = jsString (p_id s),
      a_title = (if truthyStr (p_title s) then p_title s else p_name s),
      a_text = (case find (\<lambda>x. fst x = jsString (p_id s)) pers of
                  Some found \<Rightarrow> snd found
                | None \<Rightarrow> strOr (p_abstract s) (strOr (p_summary s) []))\<rparr>"

definition setAdd :: "'a \<Rightarrow> 'a list \<Rightarrow> 'a list" where
  "setAdd x xs = (if x \<in> set xs then xs else xs @ [x])"

definition addPoint :: "jsstring \<Rightarrow> sentenceMap \<Rightarrow> jsstring \<Rightarrow> sentenceMap" where
  "addPoint aid m pt =
     (let key = toLowerCase pt;
          m1 = (if key \<in> set (map fst m) then m else m @ [(key, \<lparr>pt_text = pt, pt_papers = []\<rparr>)])
      in map (\<lambda>(k, v). if k = key then (k, v\<lparr>pt_papers := setAdd aid (pt_papers v)\<rparr>) else (k, v)) m1)"

definition addPaper :: "sentenceMap \<Rightarrow> aligned \<Rightarrow> sentenceMap" where
  "addPaper m a = foldl (addPoint (a_id a)) m (extractPoints (Some (a_text a)))"

definition buildSentenceMap :: "aligned list \<Rightarrow> sentenceMap" where
  "buildSentenceMap als = foldl addPaper [] als"

text \<open>\<open>unique[k] = v\<close> and \<open>unique[k].push(t)\<close>; the latter raises when \<open>unique[k]\<close> is undefined.\<close>

definition objSet :: "jsstring \<Rightarrow> 'v \<Rightarrow> (jsstring \<times> 'v) list \<Rightarrow> (jsstring \<times> 'v) list" where
  "objSet k v u =
     (if k \<in> set (map fst u) then map (\<lambda>(k', v'). if k' = k then (k', v) else (k', v')) u
      else u @ [(k, v)])"

definition objPush :: "jsstring \<Rightarrow> 'v \<Rightarrow> (jsstring \<times> 'v list) list \<Rightarrow> error + (jsstring \<times> 'v list) list" where
  "objPush k t u =
     (if k \<in> set (map fst u) then Inr (map (\<lambda>(k', v'). if k' = k then (k', v' @ [t]) else (k', v')) u)
      else Inl TypeError)"

definition initUnique :: "aligned list \<Rightarrow> (jsstring \<times> jsstring list) list" where
  "initUnique als = foldl (\<lambda>u a. objSet (a_id a) [] u) [] als"

text \<open>The loop over \<open>sentenceMap.entries()\<close>; \<open>n\<close> is \<open>aligned.length\<close>.\<close>

fun classify :: "nat \<Rightarrow> sentenceMap \<Rightarrow> diffs \<Rightarrow> error + diffs" where
  "classify n [] d = Inr d"
| "classify n ((k, v) # es) d =
     (if length (pt_papers v) = n then classify n es (d\<lparr>common := common d @ [pt_text v]\<rparr>)
      else if length (pt_papers v) = 1 then
        (case objPush (hd (pt_papers v)) (pt_text v) (unique d) of
           Inl e \<Rightarrow> Inl e
         | Inr u \<Rightarrow> classify n es (d\<lparr>unique := u\<rparr>))
      else classify n es d)"

definition alignedOf :: "backendPaper list \<Rightarrow> paper list \<Rightarrow> aligned list" where
  "alignedOf ps selected = map (align (map per ps)) selected"

definition computeDiffs :: "compareResult option \<Rightarrow> paper list \<Rightarrow> error + diffs" where
  "computeDiffs compareResult selected =
     (case compareResult of
        None \<Rightarrow> Inr \<lparr>common = [], unique = []\<rparr>
      | Some c \<Rightarrow>
          (case cr_papers c of
             Falsy \<Rightarrow> Inr \<lparr>common = [], unique = []\<rparr>
           | NonArray \<Rightarrow> Inl TypeError
           | Arr ps \<Rightarrow>
               let als = alignedOf ps selected
               in classify (length als) (buildSentenceMap als)
                    \<lparr>common = [], unique = initUnique als\<rparr>))"


section \<open>RecommendationAggregator\<close>

record historyEntry =
  h_query :: "jsstring option"

record profile =
  savedPapers :: "paper list option"
  searchHistory :: "historyEntry list option"

text \<open>
  The body of a successful search response. An element of a result list is \<open>None\<close>
  when it is \<open>null\<close>: reading a property of it raises.
\<close>

record searchResponse =
  sr_results :: "paper option field"
  sr_papers :: "paper option field"

text \<open>The body of a successful response of the recommendations endpoint.\<close>

record backendRecs =
  br_topics :: "jsstring list option"
  br_results :: "paper list option"
  br_papers :: "paper list option"

record recommendations =
  r_topics :: "jsstring list"
  r_papers :: "paper list"

definition orEmpty :: "'a list option \<Rightarrow> 'a list" where
  "orEmpty xs = (case xs of None \<Rightarrow> [] | Some l \<Rightarrow> l)"

text \<open>The corpus: the truthy titles of the saved papers, then the truthy queries of the first ten history entries.\<close>

definition texts :: "profile \<Rightarrow> jsstring list" where
  "texts prof =
     concat (map (\<lambda>p. if truthyStr (p_title p) then [strOr (p_title p) []] else []) (orEmpty (savedPapers prof)))
     @ concat (map (\<lambda>h. if truthyStr (h_query h) then [strOr (h_query h) []] else [])
                 (take 10 (orEmpty (searchHistory prof))))"

definition isAlnum :: "jschar \<Rightarrow> bool" where
  "isAlnum c \<longleftrightarrow> (0x30 \<le> c \<and> c \<le> 0x39) \<or> (0x41 \<le> c \<and> c \<le> 0x5A) \<or> (0x61 \<le> c \<and> c \<le> 0x7A)"

text \<open>
  \<open>t.split(/[^A-Za-z0-9]+/)\<close>: a match is a greedy run of code units outside the class;
  it closes the current piece.
\<close>

function tokenSplit :: "jsstring \<Rightarrow> jsstring list" where
  "tokenSplit [] = [[]]"
| "tokenSplit (c # cs) =
     (if isAlnum c then consPiece c (tokenSplit cs)
      else [] # tokenSplit (dropWhile (\<lambda>d. \<not> isAlnum d) cs))"
  by pat_completeness auto
termination
  by (relation "measure length") (auto simp: less_Suc_eq_le length_dropWhile_le)

definition stopwords :: "jsstring list" where
  "stopwords = map lit [''using'', ''based'', ''paper'', ''study'', ''approach'', ''model'', ''method'']"

text \<open>
  \<open>freq\<close> is an object used as a dictionary from token to count; the model keeps its
  own properties as an association list in the order of their creation. The inherited
  properties of a plain object are not modelled: the token \<open>constructor\<close>, which reads
  an inherited function as its first count, is outside the model.
  \<open>freq[w] = (freq[w] || 0) + 1\<close>:
\<close>

type_synonym freq = "(jsstring \<times> nat) list"

definition bump :: "jsstring \<Rightarrow> freq \<Rightarrow> freq" where
  "bump w fr =
     (case map_of fr w of
        None \<Rightarrow> fr @ [(w, 1)]
      | Some c \<Rightarrow> map (\<lambda>(k, v). if k = w then (k, v + 1) else (k, v)) fr)"

definition countToken :: "freq \<Rightarrow> jsstring \<Rightarrow> freq" where
  "countToken fr tok =
     (let w = toLowerCase tok
      in if length w > 3 \<and> w \<notin> set stopwords then bump w fr else fr)"

definition countText :: "freq \<Rightarrow> jsstring \<Rightarrow> freq" where
  "countText fr t = foldl countToken fr (tokenSplit t)"

definition wordFreq :: "jsstring list \<Rightarrow> freq" where
  "wordFreq ts = foldl countText [] ts"

text \<open>
  \<open>Object.entries\<close> lists the properties whose name is an array index (a canonical
  decimal numeral below \<open>2^32 - 1\<close>) first, in ascending numeric order, and then the
  other properties in the order of their creation.
\<close>

definition isDigit :: "jschar \<Rightarrow> bool" where
  "isDigit c \<longleftrightarrow> 0x30 \<le> c \<and> c \<le> 0x39"

definition decimalValue :: "jsstring \<Rightarrow> int" where
  "decimalValue s = foldl (\<lambda>n c. 10 * n + (uint c - 48)) 0 s"

definition isArrayIndex :: "jsstring \<Rightarrow> bool" where
  "isArrayIndex s \<longleftrightarrow>
     s \<noteq> [] \<and> list_all isDigit s \<and> (length s = 1 \<or> hd s \<noteq> 0x30) \<and> decimalValue s < 4294967295"

definition entries :: "(jsstring \<times> 'v) list \<Rightarrow> (jsstring \<times> 'v) list" where
  "entries obj =
     sort_key (\<lambda>(k, v). decimalValue k) (filter (\<lambda>(k, v). isArrayIndex k) obj)
     @ filter (\<lambda>(k, v). \<not> isArrayIndex k) obj"

text \<open>\<open>.sort((a,b) => b[1]-a[1])\<close> is a stable sort by descending count.\<close>

definition ranked :: "freq \<Rightarrow> freq" where
  "ranked fr = sort_key (\<lambda>(k, c). - int c) (entries fr)"

definition topicsOf :: "freq \<Rightarrow> jsstring list" where
  "topicsOf fr = map fst (take 8 (ranked fr))"

text \<open>\<open>String(p.id ?? p.paper_id ?? p.doi ?? p.title)\<close>\<close>

definition titleVal :: "paper \<Rightarrow> jsval" where
  "titleVal p = (case p_title p of None \<Rightarrow> Undefined | Some s \<Rightarrow> Str s)"

definition derivedId :: "paper \<Rightarrow> jsstring" where
  "derivedId p = jsString (jsNullish (jsNullish (jsNullish (p_id p) (p_paper_id p)) (p_doi p)) (titleVal p))"

text \<open>
  The inner \<open>forEach\<close> over one result list. The boolean of the result says whether an
  exception ended the loop; the candidates pushed before it stay.
\<close>

fun mergeList :: "jsstring list \<Rightarrow> paper list \<Rightarrow> paper option list \<Rightarrow> paper list \<times> bool" where
  "mergeList savedIds cand [] = (cand, False)"
| "mergeList savedIds cand (None # ps) = (cand, True)"
| "mergeList savedIds cand (Some p # ps) =
     (let pid = derivedId p
      in if pid \<notin> set savedIds \<and> \<not> list_ex (\<lambda>cp. derivedId cp = pid) cand
         then mergeList savedIds (cand @ [p]) ps
         else mergeList savedIds cand ps)"

text \<open>
  \<open>Array.isArray(res.results) ? res.results : (res.results || res.papers || [])\<close>, and
  then \<open>forEach\<close>, which a truthy value that is not an array does not have.
\<close>

definition listOf :: "searchResponse \<Rightarrow> error + paper option list" where
  "listOf res =
     (case sr_results res of
        Arr l \<Rightarrow> Inr l
      | NonArray \<Rightarrow> Inl TypeError
      | Falsy \<Rightarrow> (case sr_papers res of Arr l \<Rightarrow> Inr l | NonArray \<Rightarrow> Inl TypeError | Falsy \<Rightarrow> Inr []))"

text \<open>
  The outer \<open>forEach\<close> over the settled responses (\<open>None\<close> for a failed request), inside
  \<open>try\<close>: an exception ends the merge and is swallowed.
\<close>

fun mergeResults :: "jsstring list \<Rightarrow> paper list \<Rightarrow> searchResponse option list \<Rightarrow> paper list" where
  "mergeResults savedIds cand [] = cand"
| "mergeResults savedIds cand (None # rs) = mergeResults savedIds cand rs"
| "mergeResults savedIds cand (Some res # rs) =
     (case listOf res of
        Inl e \<Rightarrow> cand
      | Inr l \<Rightarrow>
          (case mergeList savedIds cand l of
             (cand', True) \<Rightarrow> cand'
           | (cand', False) \<Rightarrow> mergeResults savedIds cand' rs))"

text \<open>
  The client-side fallback of \<open>compute\<close>. \<open>search t\<close> is the settled outcome of the
  search request for the seed \<open>t\<close>: \<open>None\<close> when the request failed or was not ok.
\<close>

definition fallback :: "profile \<Rightarrow> (jsstring \<Rightarrow> searchResponse option) \<Rightarrow> recommendations" where
  "fallback prof search =
     (let topics = topicsOf (wordFreq (texts prof));
          savedIds = map (\<lambda>p. jsString (p_id p)) (orEmpty (savedPapers prof));
          topicSeeds = take 4 topics;
          results = map search topicSeeds;
          candidatePapers = mergeResults savedIds [] results
      in \<lparr>r_topics = topics, r_papers = take 10 candidatePapers\<rparr>)"

text \<open>
  \<open>compute\<close>: \<open>backend\<close> is the body of the recommendations response, \<open>None\<close> when the
  request failed or was not ok.
\<close>

definition compute :: "profile \<Rightarrow> backendRecs option \<Rightarrow> (jsstring \<Rightarrow> searchResponse option) \<Rightarrow> recommendations" where
  "compute prof backend search =
     (case backend of
        Some data \<Rightarrow>
          \<lparr>r_topics = orEmpty (br_topics data),
           r_papers = (case br_results data of Some r \<Rightarrow> r | None \<Rightarrow> orEmpty (br_papers data))\<rparr>
      | None \<Rightarrow> fallback prof search)"


section \<open>Notions of the specification and example inputs\<close>


definition mkPaper :: "jsval \<Rightarrow> string \<Rightarrow> string \<Rightarrow> paper" where
  "mkPaper i t a =
     \<lparr>p_id = i, p_paper_id = Undefined, p_doi = Undefined, p_title = Some (lit t),
      p_name = None, p_abstract = Some (lit a), p_summary = None\<rparr>"

definition paperA :: paper where
  "paperA = mkPaper (Num 1) ''Paper A''
     ''Models improve performance significantly. Uses transformers in every layer.''"

definition paperB :: paper where
  "paperB = mkPaper (Str (lit ''b2'')) ''Paper B''
     ''models improve performance significantly. Uses convolution in every layer.''"

definition paperC :: paper where
  "paperC = mkPaper (Num 3) ''Paper C''
     ''Models improve performance significantly. Uses convolution in every layer.''"

text \<open>A comparison result that carries only an embedding-similarity matrix.\<close>

definition withMatrix :: "matrix \<Rightarrow> compareResult" where
  "withMatrix m =
     \<lparr>cr_papers = Falsy, cr_evidence_graph = None,
      cr_metrics = Some \<lparr>mt_embedding_similarity = Some m, mt_keyword_overlap = None\<rparr>\<rparr>"

text \<open>A comparison result that carries only the per-paper summaries.\<close>

definition withPapers :: "backendPaper field \<Rightarrow> compareResult" where
  "withPapers ps = \<lparr>cr_papers = ps, cr_evidence_graph = None, cr_metrics = None\<rparr>"

text \<open>A symmetric matrix for two papers with similarity one half, and the graph synthesized from it.\<close>

definition halfMatrix :: compareResult where
  "halfMatrix = withMatrix [Some [SimNum 1, SimNum (1 / 2)], Some [SimNum (1 / 2), SimNum 1]]"

definition halfGraph :: graph where
  "halfGraph =
     \<lparr>g_nodes = Arr [\<lparr>n_id = lit ''1'', n_title = lit ''Paper A''\<rparr>,
                     \<lparr>n_id = lit ''b2'', n_title = lit ''Paper B''\<rparr>],
      g_edges = Arr
        [\<lparr>e_source = lit ''1'', e_target = lit ''b2'', e_relation = lit ''semantic_similarity'',
          e_evidence = [\<lparr>ev_ref_id = lit ''client:semantic:0-1'',
                          ev_label = lit ''Semantic similarity 0.500'',
                          ev_meta = \<lparr>m_similarity = SimNum (1 / 2), m_shared_keywords = []\<rparr>\<rparr>]\<rparr>,
         \<lparr>e_source = lit ''b2'', e_target = lit ''1'', e_relation = lit ''semantic_similarity'',
          e_evidence = [\<lparr>ev_ref_id = lit ''client:semantic:0-1'',
                          ev_label = lit ''Semantic similarity 0.500'',
                          ev_meta = \<lparr>m_similarity = SimNum (1 / 2), m_shared_keywords = []\<rparr>\<rparr>]\<rparr>]\<rparr>"


text \<open>
  The notions of the DiffEngine claims. \<open>keysOf a\<close>: the normalized points of a paper;
  \<open>owners als k\<close>: the ids of the papers that contain the point \<open>k\<close>; \<open>uniqueOf d P\<close>: the
  value of \<open>unique[P]\<close>, empty when the object has no such property.
\<close>

definition keysOf :: "aligned \<Rightarrow> jsstring set" where
  "keysOf a = toLowerCase ` set (extractPoints (Some (a_text a)))"

definition owners :: "aligned list \<Rightarrow> jsstring \<Rightarrow> jsstring set" where
  "owners als k = a_id ` {a \<in> set als. k \<in> keysOf a}"

definition uniqueOf :: "diffs \<Rightarrow> jsstring \<Rightarrow> jsstring list" where
  "uniqueOf d P = (case map_of (unique d) P of None \<Rightarrow> [] | Some l \<Rightarrow> l)"

text \<open>
  The display texts of the entries whose paper set has size \<open>n\<close>, and of the entries
  whose paper set is \<open>P\<close> alone and not of size \<open>n\<close>, in the order of the entries.
\<close>

definition commonTexts :: "nat \<Rightarrow> sentenceMap \<Rightarrow> jsstring list" where
  "commonTexts n es = map (\<lambda>e. pt_text (snd e)) (filter (\<lambda>e. length (pt_papers (snd e)) = n) es)"

definition uniqueTexts :: "nat \<Rightarrow> sentenceMap \<Rightarrow> jsstring \<Rightarrow> jsstring list" where
  "uniqueTexts n es P =
     map (\<lambda>e. pt_text (snd e))
       (filter (\<lambda>e. length (pt_papers (snd e)) \<noteq> n \<and> pt_papers (snd e) = [P]) es)"

text \<open>
  The state of \<open>sentenceMap\<close> after the pairs \<open>S\<close> of a paper id and a point have been
  added: one entry per normalized point, whose text normalizes to the key and whose
  paper set holds the ids that were added with that key.
\<close>

definition smInv :: "sentenceMap \<Rightarrow> (jsstring \<times> jsstring) set \<Rightarrow> bool" where
  "smInv m S \<longleftrightarrow>
     distinct (map fst m) \<and>
     fst ` set m = (\<lambda>(aid, pt). toLowerCase pt) ` S \<and>
     (\<forall>(k, v) \<in> set m.
        toLowerCase (pt_text v) = k \<and> distinct (pt_papers v) \<and>
        set (pt_papers v) = {aid. \<exists>pt. (aid, pt) \<in> S \<and> toLowerCase pt = k})"










definition savedX :: paper where
  "savedX = \<lparr>p_id = Undefined, p_paper_id = Str (lit ''X1''), p_doi = Undefined,
             p_title = Some (lit ''Deep learning''), p_name = None, p_abstract = None,
             p_summary = None\<rparr>"

definition savedProfile :: profile where
  "savedProfile = \<lparr>savedPapers = Some [savedX], searchHistory = None\<rparr>"

definition alwaysX :: "jsstring \<Rightarrow> searchResponse option" where
  "alwaysX t = Some \<lparr>sr_results = Arr [Some savedX], sr_papers = Falsy\<rparr>"



section \<open>Properties of PointExtractor\<close>

lemma inOrder_prepend: "inOrder fs s \<Longrightarrow> inOrder fs (p @ s)"
proof (induction rule: inOrder.induct)
  case (inOrder_Nil s)
  show ?case by (rule inOrder.inOrder_Nil)
next
  case (inOrder_Cons fs post f pre)
  have "inOrder (f # fs) ((p @ pre) @ f @ post)"
    by (rule inOrder.inOrder_Cons) (rule inOrder_Cons.hyps)
  then show ?case by simp
qed


lemma splitPoints_shape:
  "\<exists>f fs post. splitPoints b s = f # fs \<and> s = f @ post \<and> inOrder fs post"
proof (induction b s rule: splitPoints.induct)
  case (1 b)
  show ?case by (auto intro: inOrder.inOrder_Nil)
next
  case (2 b c cs)
  show ?case
  proof (cases "isLineBreak c")
    case True
    from 2(1)[OF True] obtain f fs post where
      h: "splitPoints False cs = f # fs" "cs = f @ post" "inOrder fs post" by blast
    have "inOrder (f # fs) ([c] @ f @ post)"
      by (rule inOrder.inOrder_Cons) (rule h(3))
    with h True show ?thesis by auto
  next
    case nl: False
    show ?thesis
    proof (cases "b \<and> isWhite c")
      case True
      from 2(2)[OF nl True] obtain f fs post where
        h: "splitPoints False (dropWhile isWhite cs) = f # fs"
           "dropWhile isWhite cs = f @ post" "inOrder fs post" by blast
      have "inOrder (f # fs) ((c # takeWhile isWhite cs) @ f @ post)"
        by (rule inOrder.inOrder_Cons) (rule h(3))
      moreover have "(c # takeWhile isWhite cs) @ f @ post = c # cs"
        using h(2) by (metis append_Cons takeWhile_dropWhile_id)
      ultimately show ?thesis using h nl True by auto
    next
      case False
      from 2(3)[OF nl False] obtain f fs post where
        h: "splitPoints (isSentenceEnd c) cs = f # fs" "cs = f @ post" "inOrder fs post" by blast
      with nl False show ?thesis by auto
    qed
  qed
qed

lemma inOrder_splitPoints: "inOrder (splitPoints b s) s"
proof -
  obtain f fs post where h: "splitPoints b s = f # fs" "s = f @ post" "inOrder fs post"
    using splitPoints_shape by blast
  have "inOrder (f # fs) ([] @ f @ post)"
    by (rule inOrder.inOrder_Cons) (rule h(3))
  with h show ?thesis by simp
qed

lemma inOrder_filter: "inOrder fs s \<Longrightarrow> inOrder (filter P fs) s"
proof (induction rule: inOrder.induct)
  case (inOrder_Nil s)
  show ?case by (simp add: inOrder.inOrder_Nil)
next
  case (inOrder_Cons fs post f pre)
  show ?case
  proof (cases "P f")
    case True
    then show ?thesis using inOrder_Cons.IH by (simp add: inOrder.inOrder_Cons)
  next
    case False
    have "inOrder (filter P fs) ((pre @ f) @ post)"
      by (rule inOrder_prepend) (rule inOrder_Cons.IH)
    with False show ?thesis by simp
  qed
qed

lemma inOrder_map_part:
  assumes "\<And>f. \<exists>a b. f = a @ g f @ b"
  shows "inOrder fs s \<Longrightarrow> inOrder (map g fs) s"
proof (induction rule: inOrder.induct)
  case (inOrder_Nil s)
  show ?case by (simp add: inOrder.inOrder_Nil)
next
  case (inOrder_Cons fs post f pre)
  obtain a b where f: "f = a @ g f @ b" using assms by blast
  have "inOrder (map g fs) (b @ post)"
    by (rule inOrder_prepend) (rule inOrder_Cons.IH)
  then have "inOrder (g f # map g fs) ((pre @ a) @ g f @ (b @ post))"
    by (rule inOrder.inOrder_Cons)
  moreover have "(pre @ a) @ g f @ (b @ post) = pre @ (a @ g f @ b) @ post"
    by simp
  ultimately have "inOrder (g f # map g fs) (pre @ (a @ g f @ b) @ post)"
    by (simp only:)
  with f show ?case by simp
qed

lemma trim_part: "\<exists>a b. f = a @ trim f @ b"
proof -
  let ?u = "dropWhile isWhite f"
  have 1: "f = takeWhile isWhite f @ ?u" by simp
  have "rev ?u = takeWhile isWhite (rev ?u) @ dropWhile isWhite (rev ?u)" by simp
  then have "?u = trim f @ rev (takeWhile isWhite (rev ?u))"
    unfolding trim_def by (metis rev_append rev_rev_ident)
  with 1 show ?thesis by (metis append.assoc)
qed

lemma stripBullets_part: "\<exists>a b. f = a @ dropWhile isBullet f @ b"
  by (metis append_Nil2 takeWhile_dropWhile_id)

lemma inOrder_extractPoints: "inOrder (extractPoints (Some t)) t"
proof (cases "t = []")
  case True
  then show ?thesis by (simp add: extractPoints_def inOrder.inOrder_Nil)
next
  case False
  have "inOrder (map trim (splitPoints False t)) t"
    by (rule inOrder_map_part[OF trim_part]) (rule inOrder_splitPoints)
  then have "inOrder (filter (\<lambda>s. s \<noteq> []) (map trim (splitPoints False t))) t"
    by (rule inOrder_filter)
  then have "inOrder (map (dropWhile isBullet)
      (filter (\<lambda>s. s \<noteq> []) (map trim (splitPoints False t)))) t"
    by (rule inOrder_map_part[OF stripBullets_part])
  then have "inOrder (filter (\<lambda>s. length s > 20) (map (dropWhile isBullet)
      (filter (\<lambda>s. s \<noteq> []) (map trim (splitPoints False t))))) t"
    by (rule inOrder_filter)
  with False show ?thesis by (simp add: extractPoints_def Let_def)
qed

lemma extractPoints_member:
  assumes "f \<in> set (extractPoints text)"
  shows "length f > 20 \<and> \<not> isBullet (hd f)"
proof -
  from assms obtain t where t: "text = Some t" "t \<noteq> []"
    by (auto simp: extractPoints_def split: option.splits if_splits)
  from assms t obtain r where r: "f = dropWhile isBullet r" "length f > 20"
    by (auto simp: extractPoints_def Let_def)
  from r(2) have "f \<noteq> []" by auto
  with r(1) have "\<not> isBullet (hd f)" by (metis hd_dropWhile)
  with r show ?thesis by simp
qed


text \<open>
  C5: every fragment that \<open>extractPoints\<close> returns is longer than 20 code units and does
  not start with a hyphen, a bullet or white space; the fragments occur in the input in
  the order in which they are returned; the empty string and a null argument give the
  empty sequence.
\<close>

theorem extractPoints_fragments:
  "(\<forall>f \<in> set (extractPoints text).
      length f > 20 \<and> hd f \<noteq> 0x2D \<and> hd f \<noteq> 0x2022 \<and> \<not> isWhite (hd f))
   \<and> (\<forall>t. text = Some t \<longrightarrow> inOrder (extractPoints text) t)
   \<and> extractPoints (Some []) = [] \<and> extractPoints None = []"
proof -
  have "length f > 20 \<and> hd f \<noteq> 0x2D \<and> hd f \<noteq> 0x2022 \<and> \<not> isWhite (hd f)"
    if "f \<in> set (extractPoints text)" for f
    using extractPoints_member[OF that] by (simp add: isBullet_def)
  moreover have "inOrder (extractPoints text) t" if "text = Some t" for t
    using that inOrder_extractPoints by simp
  moreover have "extractPoints (Some []) = []" "extractPoints None = []"
    by (simp_all add: extractPoints_def)
  ultimately show ?thesis by blast
qed

theorem extractPoints_fragments_witness:
  "extractPoints (Some (lit ''- First point is long enough here.  tiny one. Second point follows after that!''))
     = [lit ''First point is long enough here.'', lit ''Second point follows after that!'']
   \<and> list_all (\<lambda>f. length f > 20 \<and> hd f \<noteq> 0x2D \<and> hd f \<noteq> 0x2022 \<and> \<not> isWhite (hd f))
        [lit ''First point is long enough here.'', lit ''Second point follows after that!'']
   \<and> inOrder [lit ''First point is long enough here.'', lit ''Second point follows after that!'']
        (lit ''- First point is long enough here.  tiny one. Second point follows after that!'')"
proof -
  let ?t = "lit ''- First point is long enough here.  tiny one. Second point follows after that!''"
  have e: "extractPoints (Some ?t)
     = [lit ''First point is long enough here.'', lit ''Second point follows after that!'']"
    by code_simp
  from extractPoints_fragments[of "Some ?t"] show ?thesis
    unfolding e list_all_iff by blast
qed


section \<open>Properties of EvidenceGraphBuilder\<close>

lemma length_indexPairs: "2 * length (indexPairs k) = k * (k - 1)"
proof -
  have "length (indexPairs k) = (\<Sum>i\<leftarrow>[0..<k]. k - Suc i)"
    by (simp add: indexPairs_def length_concat comp_def)
  also have "2 * \<dots> = k * (k - 1)"
  proof (induction k)
    case 0
    show ?case by simp
  next
    case (Suc k)
    have "(\<Sum>i\<leftarrow>[0..<k]. Suc k - Suc i) = (\<Sum>i\<leftarrow>[0..<k]. Suc (k - Suc i))"
      by (rule arg_cong[where f = sum_list], rule map_cong) auto
    also have "\<dots> = (\<Sum>i\<leftarrow>[0..<k]. k - Suc i) + k"
      by (simp add: sum_list_Suc)
    finally have "(\<Sum>i\<leftarrow>[0..<Suc k]. Suc k - Suc i) = (\<Sum>i\<leftarrow>[0..<k]. k - Suc i) + k"
      by simp
    with Suc show ?case by (cases k) (simp_all add: algebra_simps)
  qed
  finally show ?thesis .
qed

lemma set_indexPairs: "set (indexPairs k) = {(i, j). i < j \<and> j < k}"
proof -
  have "(a, b) \<in> set (indexPairs k)" if "a < b" "b < k" for a b
  proof -
    from that have 1: "(a, b) \<in> set (map (Pair a) [Suc a..<k])" by simp
    from that have "a \<in> set [0..<k]" by simp
    then have 2: "map (Pair a) [Suc a..<k] \<in> set (map (\<lambda>i. map (Pair i) [Suc i..<k]) [0..<k])"
      by (simp only: set_map) (rule imageI)
    show ?thesis unfolding indexPairs_def set_concat
      by (rule UN_I[where B = set, OF 2 1])
  qed
  moreover have "a < b \<and> b < k" if "(a, b) \<in> set (indexPairs k)" for a b
    using that by (auto simp: indexPairs_def)
  ultimately show ?thesis by auto
qed

lemma distinct_pairRows:
  "distinct (concat (map (\<lambda>i. map (Pair i) [Suc i..<k]) [0..<n]))"
proof (induction n)
  case 0
  show ?case by simp
next
  case (Suc n)
  have "distinct (map (Pair n) [Suc n..<k])"
    by (simp add: distinct_map inj_on_def)
  moreover have "set (concat (map (\<lambda>i. map (Pair i) [Suc i..<k]) [0..<n]))
      \<inter> set (map (Pair n) [Suc n..<k]) = {}"
    by auto
  ultimately show ?case using Suc by simp
qed

lemma distinct_indexPairs: "distinct (indexPairs k)"
  unfolding indexPairs_def by (rule distinct_pairRows)

text \<open>The two edges of a pair, given the similarity value and the label of its evidence record.\<close>

lemma pairEdges_cases:
  "pairEdges emb kw ns i j =
     (case entry emb i j of
        None \<Rightarrow> Inr (twoEdges ns i j SimNull (lit ''Semantic relation''))
      | Some v \<Rightarrow> (case simLabel v of Inl e \<Rightarrow> Inl e | Inr l \<Rightarrow> Inr (twoEdges ns i j v l)))"
  by (simp add: pairEdges_def twoEdges_def Let_def split: option.splits sum.splits)

lemma simLabel_Inl: "simLabel v = Inl e \<longleftrightarrow> v = SimNull"
  by (cases e) (simp add: simLabel_def split: simval.splits)

lemma edgesLoop_Inr:
  "edgesLoop emb kw ns ps = Inr es \<longleftrightarrow>
     (\<exists>ess. list_all2 (\<lambda>(i, j) e2. pairEdges emb kw ns i j = Inr e2) ps ess \<and> es = concat ess)"
proof (induction ps arbitrary: es)
  case Nil
  show ?case by auto
next
  case (Cons p ps)
  obtain i j where p: "p = (i, j)" by (cases p)
  show ?case
  proof (cases "pairEdges emb kw ns i j")
    case (Inl e)
    then show ?thesis by (auto simp: p list_all2_Cons1)
  next
    case (Inr e2)
    show ?thesis
    proof (cases "edgesLoop emb kw ns ps")
      case (Inl e)
      with Cons.IH have "\<not> (\<exists>ess. list_all2 (\<lambda>(i, j) e2. pairEdges emb kw ns i j = Inr e2) ps ess)"
        by (metis Inl_Inr_False)
      with Inl Inr show ?thesis by (auto simp: p list_all2_Cons1)
    next
      case rest: (Inr r)
      with Cons.IH[of r] obtain ess where
        ess: "list_all2 (\<lambda>(i, j) e2. pairEdges emb kw ns i j = Inr e2) ps ess" "r = concat ess"
        by blast
      have u: "concat ess' = r" if "list_all2 (\<lambda>(i, j) e2. pairEdges emb kw ns i j = Inr e2) ps ess'" for ess'
        using Cons.IH[of "concat ess'"] that rest by auto
      show ?thesis
      proof
        assume "edgesLoop emb kw ns (p # ps) = Inr es"
        with Inr rest have "es = e2 @ r" by (simp add: p)
        with ess Inr show "\<exists>ess. list_all2 (\<lambda>(i, j) e2. pairEdges emb kw ns i j = Inr e2) (p # ps) ess \<and> es = concat ess"
          by (intro exI[of _ "e2 # ess"]) (simp add: p)
      next
        assume "\<exists>ess. list_all2 (\<lambda>(i, j) e2. pairEdges emb kw ns i j = Inr e2) (p # ps) ess \<and> es = concat ess"
        then obtain ess' where h: "list_all2 (\<lambda>(i, j) e2. pairEdges emb kw ns i j = Inr e2) (p # ps) ess'" "es = concat ess'"
          by blast
        then obtain x xs where x: "ess' = x # xs" "pairEdges emb kw ns i j = Inr x"
          "list_all2 (\<lambda>(i, j) e2. pairEdges emb kw ns i j = Inr e2) ps xs"
          by (auto simp: p list_all2_Cons1)
        with Inr u[of xs] h(2) have "es = e2 @ r" by simp
        with Inr rest show "edgesLoop emb kw ns (p # ps) = Inr es" by (simp add: p)
      qed
    qed
  qed
qed

lemma edgesLoop_total:
  assumes "list_all (\<lambda>(i, j). entry emb i j \<noteq> Some SimNull) ps"
  shows "\<exists>es. edgesLoop emb kw ns ps = Inr es"
  using assms
proof (induction ps)
  case Nil
  show ?case by simp
next
  case (Cons p ps)
  obtain i j where p: "p = (i, j)" by (cases p)
  from Cons obtain r where r: "edgesLoop emb kw ns ps = Inr r" by auto
  from Cons.prems have "entry emb i j \<noteq> Some SimNull" by (simp add: p)
  then obtain e2 where "pairEdges emb kw ns i j = Inr e2"
    by (cases "entry emb i j"; cases "simLabel (the (entry emb i j))")
       (auto simp: pairEdges_cases simLabel_Inl)
  with r show ?case by (simp add: p)
qed

lemma edgesLoop_raises:
  assumes "(i, j) \<in> set ps" "entry emb i j = Some SimNull"
  shows "edgesLoop emb kw ns ps = Inl TypeError"
  using assms(1)
proof (induction ps)
  case Nil
  then show ?case by simp
next
  case (Cons p ps)
  obtain i' j' where p: "p = (i', j')" by (cases p)
  have n: "pairEdges emb kw ns i j = Inl TypeError"
    using assms(2) by (simp add: pairEdges_cases simLabel_def)
  show ?case
  proof (cases "p = (i, j)")
    case True
    with n show ?thesis by simp
  next
    case False
    with Cons have "edgesLoop emb kw ns ps = Inl TypeError" by simp
    then show ?thesis
      by (cases "pairEdges emb kw ns i' j'") (auto simp: p intro: error.exhaust)
  qed
qed


lemma synthesize_Inr:
  "synthesize c selected = Inr g \<longleftrightarrow>
     (\<exists>es. edgesLoop (embOf c) (kwOf c) (map nodeOf selected) (indexPairs (length selected)) = Inr es
        \<and> g = \<lparr>g_nodes = Arr (map nodeOf selected), g_edges = Arr es\<rparr>)"
  by (auto simp: synthesize_def Let_def split: sum.splits)

lemma build_synthesize:
  "backendGraph c = None \<Longrightarrow> buildFallbackEvidenceGraph (Some c) selected = synthesize c selected"
  by (simp add: buildFallbackEvidenceGraph_def)

lemma twoEdges_nodes:
  assumes "i < length selected" "j < length selected"
  shows "twoEdges (map nodeOf selected) i j sim lbl =
     [\<lparr>e_source = jsString (p_id (selected ! i)), e_target = jsString (p_id (selected ! j)),
        e_relation = lit ''semantic_similarity'',
        e_evidence = [\<lparr>ev_ref_id = lit ''client:semantic:'' @ digitsOf i @ lit ''-'' @ digitsOf j,
                        ev_label = lbl,
                        ev_meta = \<lparr>m_similarity = sim, m_shared_keywords = []\<rparr>\<rparr>]\<rparr>,
      \<lparr>e_source = jsString (p_id (selected ! j)), e_target = jsString (p_id (selected ! i)),
        e_relation = lit ''semantic_similarity'',
        e_evidence = [\<lparr>ev_ref_id = lit ''client:semantic:'' @ digitsOf i @ lit ''-'' @ digitsOf j,
                        ev_label = lbl,
                        ev_meta = \<lparr>m_similarity = sim, m_shared_keywords = []\<rparr>\<rparr>]\<rparr>]"
  using assms by (simp add: twoEdges_def Let_def nodeOf_def lit_def)

text \<open>
  What a run of the synthesis that returns has built: for each pair of positions, in
  the order of the loops, the two edges of \<open>twoEdges\<close> with the similarity value and the
  label of that pair.
\<close>

lemma synthesized_edges:
  assumes "backendGraph c = None" "buildFallbackEvidenceGraph (Some c) selected = Inr g"
  shows "g_nodes g = Arr (map nodeOf selected) \<and>
    (\<exists>ess. g_edges g = Arr (concat ess) \<and>
       list_all2 (\<lambda>(i, j) e2. i < j \<and> j < length selected \<and>
           entry (embOf c) i j \<noteq> Some SimNull \<and>
           (\<exists>sim lbl. e2 = twoEdges (map nodeOf selected) i j sim lbl \<and>
              (case entry (embOf c) i j of
                 None \<Rightarrow> sim = SimNull \<and> lbl = lit ''Semantic relation''
               | Some v \<Rightarrow> sim = v \<and> simLabel v = Inr lbl)))
         (indexPairs (length selected)) ess)"
proof -
  from assms obtain es where
    es: "edgesLoop (embOf c) (kwOf c) (map nodeOf selected) (indexPairs (length selected)) = Inr es"
    and g: "g = \<lparr>g_nodes = Arr (map nodeOf selected), g_edges = Arr es\<rparr>"
    by (auto simp: build_synthesize synthesize_Inr)
  from es obtain ess where
    ess: "list_all2 (\<lambda>(i, j) e2. pairEdges (embOf c) (kwOf c) (map nodeOf selected) i j = Inr e2)
            (indexPairs (length selected)) ess"
    and c: "es = concat ess"
    unfolding edgesLoop_Inr by blast
  have "list_all2 (\<lambda>(i, j) e2. i < j \<and> j < length selected \<and>
           entry (embOf c) i j \<noteq> Some SimNull \<and>
           (\<exists>sim lbl. e2 = twoEdges (map nodeOf selected) i j sim lbl \<and>
              (case entry (embOf c) i j of
                 None \<Rightarrow> sim = SimNull \<and> lbl = lit ''Semantic relation''
               | Some v \<Rightarrow> sim = v \<and> simLabel v = Inr lbl)))
         (indexPairs (length selected)) ess"
  proof (rule list.rel_mono_strong[OF ess])
    fix p e2
    assume p: "p \<in> set (indexPairs (length selected))"
      and h: "(case p of (i, j) \<Rightarrow> \<lambda>e2. pairEdges (embOf c) (kwOf c) (map nodeOf selected) i j = Inr e2) e2"
    obtain i j where ij: "p = (i, j)" by (cases p)
    from p ij have lt: "i < j" "j < length selected" by (auto simp: set_indexPairs)
    from h ij have pe: "pairEdges (embOf c) (kwOf c) (map nodeOf selected) i j = Inr e2" by simp
    show "(case p of (i, j) \<Rightarrow> \<lambda>e2. i < j \<and> j < length selected \<and>
           entry (embOf c) i j \<noteq> Some SimNull \<and>
           (\<exists>sim lbl. e2 = twoEdges (map nodeOf selected) i j sim lbl \<and>
              (case entry (embOf c) i j of
                 None \<Rightarrow> sim = SimNull \<and> lbl = lit ''Semantic relation''
               | Some v \<Rightarrow> sim = v \<and> simLabel v = Inr lbl))) e2"
    proof (cases "entry (embOf c) i j")
      case None
      with pe lt show ?thesis by (auto simp: ij pairEdges_cases)
    next
      case (Some v)
      with pe obtain l where "simLabel v = Inr l" "e2 = twoEdges (map nodeOf selected) i j v l"
        by (auto simp: pairEdges_cases split: sum.splits)
      moreover from this have "v \<noteq> SimNull" by (auto simp: simLabel_def)
      ultimately show ?thesis using Some lt by (auto simp: ij)
    qed
  qed
  with g c show ?thesis by auto
qed


text \<open>
  When no entry of the embedding matrix that the loops read is \<open>null\<close>, the synthesis
  returns: one node per selected paper and \<open>k * (k - 1)\<close> edges, each pair of positions
  once in each direction.
\<close>

lemma length_concat_pairs:
  assumes "\<And>x. length (f x) = 2"
  shows "length (concat (map f xs)) = 2 * length xs"
  by (induction xs) (simp_all add: assms)

lemma synthesized_counts:
  assumes "backendGraph c = None"
    and "list_all (\<lambda>(i, j). entry (embOf c) i j \<noteq> Some SimNull) (indexPairs (length selected))"
  shows "\<exists>es. buildFallbackEvidenceGraph (Some c) selected
            = Inr \<lparr>g_nodes = Arr (map nodeOf selected), g_edges = Arr es\<rparr>
          \<and> length es = length selected * (length selected - 1)
          \<and> map (\<lambda>e. (e_source e, e_target e, e_relation e)) es
              = concat (map (\<lambda>(i, j).
                  [(jsString (p_id (selected ! i)), jsString (p_id (selected ! j)), lit ''semantic_similarity''),
                   (jsString (p_id (selected ! j)), jsString (p_id (selected ! i)), lit ''semantic_similarity'')])
                  (indexPairs (length selected)))"
proof -
  let ?k = "length selected"
  from edgesLoop_total[OF assms(2)] obtain es where
    es: "edgesLoop (embOf c) (kwOf c) (map nodeOf selected) (indexPairs ?k) = Inr es"
    by blast
  then have b: "buildFallbackEvidenceGraph (Some c) selected
      = Inr \<lparr>g_nodes = Arr (map nodeOf selected), g_edges = Arr es\<rparr>"
    using assms(1) by (simp add: build_synthesize synthesize_def Let_def)
  from synthesized_edges[OF assms(1) b] obtain ess where
    c: "es = concat ess" and
    l: "list_all2 (\<lambda>(i, j) e2. i < j \<and> j < ?k \<and> entry (embOf c) i j \<noteq> Some SimNull \<and>
           (\<exists>sim lbl. e2 = twoEdges (map nodeOf selected) i j sim lbl \<and>
              (case entry (embOf c) i j of
                 None \<Rightarrow> sim = SimNull \<and> lbl = lit ''Semantic relation''
               | Some v \<Rightarrow> sim = v \<and> simLabel v = Inr lbl)))
         (indexPairs ?k) ess"
    by auto
  have m: "map (map (\<lambda>e. (e_source e, e_target e, e_relation e))) ess
      = map (\<lambda>(i, j).
          [(jsString (p_id (selected ! i)), jsString (p_id (selected ! j)), lit ''semantic_similarity''),
           (jsString (p_id (selected ! j)), jsString (p_id (selected ! i)), lit ''semantic_similarity'')])
          (indexPairs ?k)"
    using l
  proof (induction rule: list_all2_induct)
    case Nil
    show ?case by simp
  next
    case (Cons p ps e2 ess)
    obtain i j where ij: "p = (i, j)" by (cases p)
    with Cons.hyps(1) have lt: "i < ?k" "j < ?k" by auto
    from Cons.hyps(1) ij obtain sim lbl where "e2 = twoEdges (map nodeOf selected) i j sim lbl"
      by auto
    with lt Cons.IH show ?case by (simp add: ij twoEdges_nodes)
  qed
  have "map (\<lambda>e. (e_source e, e_target e, e_relation e)) es
      = concat (map (map (\<lambda>e. (e_source e, e_target e, e_relation e))) ess)"
    by (simp add: c map_concat)
  with m have t: "map (\<lambda>e. (e_source e, e_target e, e_relation e)) es
      = concat (map (\<lambda>(i, j).
          [(jsString (p_id (selected ! i)), jsString (p_id (selected ! j)), lit ''semantic_similarity''),
           (jsString (p_id (selected ! j)), jsString (p_id (selected ! i)), lit ''semantic_similarity'')])
          (indexPairs ?k))"
    by simp
  have "length (map (\<lambda>e. (e_source e, e_target e, e_relation e)) es) = 2 * length (indexPairs ?k)"
    unfolding t by (rule length_concat_pairs) (simp split: prod.splits)
  then have "length es = 2 * length (indexPairs ?k)" by simp
  then have "length es = ?k * (?k - 1)" by (simp add: length_indexPairs)
  with b t show ?thesis by blast
qed

text \<open>
  C2: \<open>computeDiffs\<close> and \<open>buildFallbackEvidenceGraph\<close> raise on malformed comparison
  results. With the embedding matrix \<open>[[1, null], [null, 1]]\<close> and two selected papers
  the test \<open>typeof emb[0][1] !== 'undefined'\<close> holds and \<open>sim.toFixed\<close> is read of
  \<open>null\<close>; with a \<open>papers\<close> property that holds a truthy value other than an array,
  \<open>compareResult.papers.map\<close> is not a function.
\<close>

theorem malformed_inputs_raise:
  "buildFallbackEvidenceGraph
     (Some (withMatrix [Some [SimNum 1, SimNull], Some [SimNull, SimNum 1]])) [paperA, paperB]
     = Inl TypeError
   \<and> computeDiffs (Some (withPapers NonArray)) [paperA, paperB] = Inl TypeError"
  by code_simp

text \<open>
  C3: with a comparison result that has no backend graph and three selected papers, a
  \<open>null\<close> at position \<open>(1, 2)\<close> of the embedding matrix makes
  \<open>buildFallbackEvidenceGraph\<close> raise where three nodes and six edges are promised.
\<close>

theorem fallback_graph_raises_on_null:
  "backendGraph (withMatrix [Some [SimNum 1, SimNum (1 / 2), SimNum (1 / 4)],
                             Some [SimNum (1 / 2), SimNum 1, SimNull],
                             Some [SimNum (1 / 4), SimNull, SimNum 1]]) = None
   \<and> buildFallbackEvidenceGraph
       (Some (withMatrix [Some [SimNum 1, SimNum (1 / 2), SimNum (1 / 4)],
                          Some [SimNum (1 / 2), SimNum 1, SimNull],
                          Some [SimNum (1 / 4), SimNull, SimNum 1]])) [paperA, paperB, paperC]
     = Inl TypeError"
  by code_simp


lemma digit_range:
  assumes "n < 10"
  shows "(0x30 :: jschar) \<le> digit n \<and> digit n \<le> 0x39"
proof -
  from assms have "n \<in> {0, 1, 2, 3, 4, 5, 6, 7, 8, 9}" by auto
  then show ?thesis unfolding digit_def by auto
qed






lemma isDigit_digit: "n < 10 \<Longrightarrow> isDigit (digit n)"
  using digit_range[of n] by (simp add: isDigit_def)

lemma digitsOf_digits: "list_all isDigit (digitsOf n)"
proof (induction n rule: digitsOf.induct)
  case (1 n)
  show ?case
  proof (cases "n < 10")
    case True
    then show ?thesis
      by (subst digitsOf.simps) (simp add: isDigit_digit)
  next
    case False
    with 1 show ?thesis
      by (subst digitsOf.simps) (simp add: isDigit_digit)
  qed
qed

lemma digitsOf_inj:
  assumes "digitsOf i @ 0x2D # r = digitsOf j @ 0x2D # s"
  shows "digitsOf i = digitsOf j"
proof -
  have n: "\<not> isDigit 0x2D" by (simp add: isDigit_def)
  have t: "takeWhile isDigit (digitsOf k @ 0x2D # u) = digitsOf k" for k u
    using digitsOf_digits[of k] n by (simp add: takeWhile_append2 list_all_iff)
  from assms have "takeWhile isDigit (digitsOf i @ 0x2D # r) = takeWhile isDigit (digitsOf j @ 0x2D # s)"
    by simp
  then show ?thesis by (simp only: t)
qed

lemma uint_digit:
  assumes "n < 10"
  shows "uint (digit n) = 48 + int n"
proof -
  from assms have "n \<in> {0, 1, 2, 3, 4, 5, 6, 7, 8, 9}" by auto
  then show ?thesis unfolding digit_def by auto
qed

lemma decimalValue_append: "decimalValue (xs @ [c]) = 10 * decimalValue xs + (uint c - 48)"
  by (simp add: decimalValue_def)

lemma decimalValue_digitsOf: "decimalValue (digitsOf n) = int n"
proof (induction n rule: digitsOf.induct)
  case (1 n)
  show ?case
  proof (cases "n < 10")
    case True
    then show ?thesis
      by (subst digitsOf.simps) (simp add: decimalValue_def uint_digit)
  next
    case False
    have "decimalValue (digitsOf (n div 10) @ [digit (n mod 10)])
        = 10 * int (n div 10) + int (n mod 10)"
      using 1[OF False] by (simp add: decimalValue_append uint_digit[of "n mod 10"])
    also have "\<dots> = int n" by (simp add: zdiv_int zmod_int)
    finally show ?thesis using False by (subst digitsOf.simps) simp
  qed
qed

lemma refId_direction:
  assumes "i \<noteq> j"
  shows "lit ''client:semantic:'' @ digitsOf i @ lit ''-'' @ digitsOf j
       \<noteq> lit ''client:semantic:'' @ digitsOf j @ lit ''-'' @ digitsOf i"
proof
  assume "lit ''client:semantic:'' @ digitsOf i @ lit ''-'' @ digitsOf j
        = lit ''client:semantic:'' @ digitsOf j @ lit ''-'' @ digitsOf i"
  then have "digitsOf i @ 0x2D # digitsOf j = digitsOf j @ 0x2D # digitsOf i"
    by (simp add: lit_def)
  then have "digitsOf i = digitsOf j" by (rule digitsOf_inj)
  then have "decimalValue (digitsOf i) = decimalValue (digitsOf j)" by simp
  with assms show False by (simp add: decimalValue_digitsOf)
qed

text \<open>
  C10: in a synthesized graph the edges come in pairs, one pair for each pair of
  positions \<open>i < j\<close> in the order of the loops: the edge from \<open>i\<close> to \<open>j\<close> and the edge
  from \<open>j\<close> to \<open>i\<close>. Both carry the same single evidence record; its reference id is
  \<open>client:semantic:i-j\<close>, built from the forward indices and different from the id of the
  reverse direction, and its shared-keyword list is empty.
\<close>

theorem fallback_edges_share_evidence:
  assumes "backendGraph c = None" "buildFallbackEvidenceGraph (Some c) selected = Inr g"
  shows "\<exists>ess. g_edges g = Arr (concat ess) \<and>
     list_all2 (\<lambda>(i, j) e2. \<exists>ev.
         e2 = [\<lparr>e_source = jsString (p_id (selected ! i)), e_target = jsString (p_id (selected ! j)),
                e_relation = lit ''semantic_similarity'', e_evidence = [ev]\<rparr>,
               \<lparr>e_source = jsString (p_id (selected ! j)), e_target = jsString (p_id (selected ! i)),
                e_relation = lit ''semantic_similarity'', e_evidence = [ev]\<rparr>]
         \<and> i < j
         \<and> ev_ref_id ev = lit ''client:semantic:'' @ digitsOf i @ lit ''-'' @ digitsOf j
         \<and> ev_ref_id ev \<noteq> lit ''client:semantic:'' @ digitsOf j @ lit ''-'' @ digitsOf i
         \<and> m_shared_keywords (ev_meta ev) = [])
       (indexPairs (length selected)) ess"
proof -
  from synthesized_edges[OF assms] obtain ess where
    c: "g_edges g = Arr (concat ess)" and
    l: "list_all2 (\<lambda>(i, j) e2. i < j \<and> j < length selected \<and> entry (embOf c) i j \<noteq> Some SimNull \<and>
           (\<exists>sim lbl. e2 = twoEdges (map nodeOf selected) i j sim lbl \<and>
              (case entry (embOf c) i j of
                 None \<Rightarrow> sim = SimNull \<and> lbl = lit ''Semantic relation''
               | Some v \<Rightarrow> sim = v \<and> simLabel v = Inr lbl)))
         (indexPairs (length selected)) ess"
    by auto
  have "list_all2 (\<lambda>(i, j) e2. \<exists>ev.
         e2 = [\<lparr>e_source = jsString (p_id (selected ! i)), e_target = jsString (p_id (selected ! j)),
                e_relation = lit ''semantic_similarity'', e_evidence = [ev]\<rparr>,
               \<lparr>e_source = jsString (p_id (selected ! j)), e_target = jsString (p_id (selected ! i)),
                e_relation = lit ''semantic_similarity'', e_evidence = [ev]\<rparr>]
         \<and> i < j
         \<and> ev_ref_id ev = lit ''client:semantic:'' @ digitsOf i @ lit ''-'' @ digitsOf j
         \<and> ev_ref_id ev \<noteq> lit ''client:semantic:'' @ digitsOf j @ lit ''-'' @ digitsOf i
         \<and> m_shared_keywords (ev_meta ev) = [])
       (indexPairs (length selected)) ess"
  proof (rule list_all2_mono[OF l])
    fix p e2
    assume h: "(case p of (i, j) \<Rightarrow> \<lambda>e2. i < j \<and> j < length selected \<and> entry (embOf c) i j \<noteq> Some SimNull \<and>
           (\<exists>sim lbl. e2 = twoEdges (map nodeOf selected) i j sim lbl \<and>
              (case entry (embOf c) i j of
                 None \<Rightarrow> sim = SimNull \<and> lbl = lit ''Semantic relation''
               | Some v \<Rightarrow> sim = v \<and> simLabel v = Inr lbl))) e2"
    obtain i j where ij: "p = (i, j)" by (cases p)
    from h ij obtain sim lbl where
      lt: "i < j" "j < length selected" and
      e2: "e2 = twoEdges (map nodeOf selected) i j sim lbl"
      by auto
    from lt have "i < length selected" "i \<noteq> j" by auto
    with lt e2 refId_direction[of i j]
    show "(case p of (i, j) \<Rightarrow> \<lambda>e2. \<exists>ev.
         e2 = [\<lparr>e_source = jsString (p_id (selected ! i)), e_target = jsString (p_id (selected ! j)),
                e_relation = lit ''semantic_similarity'', e_evidence = [ev]\<rparr>,
               \<lparr>e_source = jsString (p_id (selected ! j)), e_target = jsString (p_id (selected ! i)),
                e_relation = lit ''semantic_similarity'', e_evidence = [ev]\<rparr>]
         \<and> i < j
         \<and> ev_ref_id ev = lit ''client:semantic:'' @ digitsOf i @ lit ''-'' @ digitsOf j
         \<and> ev_ref_id ev \<noteq> lit ''client:semantic:'' @ digitsOf j @ lit ''-'' @ digitsOf i
         \<and> m_shared_keywords (ev_meta ev) = []) e2"
      unfolding ij by (simp add: twoEdges_nodes)
  qed
  with c show ?thesis by blast
qed

theorem fallback_edges_share_evidence_witness:
  "backendGraph halfMatrix = None
   \<and> buildFallbackEvidenceGraph (Some halfMatrix) [paperA, paperB] = Inr halfGraph
   \<and> (\<exists>ess. g_edges halfGraph = Arr (concat ess) \<and>
     list_all2 (\<lambda>(i, j) e2. \<exists>ev.
         e2 = [\<lparr>e_source = jsString (p_id ([paperA, paperB] ! i)), e_target = jsString (p_id ([paperA, paperB] ! j)),
                e_relation = lit ''semantic_similarity'', e_evidence = [ev]\<rparr>,
               \<lparr>e_source = jsString (p_id ([paperA, paperB] ! j)), e_target = jsString (p_id ([paperA, paperB] ! i)),
                e_relation = lit ''semantic_similarity'', e_evidence = [ev]\<rparr>]
         \<and> i < j
         \<and> ev_ref_id ev = lit ''client:semantic:'' @ digitsOf i @ lit ''-'' @ digitsOf j
         \<and> ev_ref_id ev \<noteq> lit ''client:semantic:'' @ digitsOf j @ lit ''-'' @ digitsOf i
         \<and> m_shared_keywords (ev_meta ev) = [])
       (indexPairs (length [paperA, paperB])) ess)"
proof -
  have 1: "backendGraph halfMatrix = None" by code_simp
  have 2: "buildFallbackEvidenceGraph (Some halfMatrix) [paperA, paperB] = Inr halfGraph"
    by code_simp
  from fallback_edges_share_evidence[OF 1 2] 1 2 show ?thesis by blast
qed


section \<open>Properties of DiffEngine\<close>

lemma set_setAdd: "set (setAdd x xs) = insert x (set xs)"
  by (auto simp: setAdd_def)

lemma distinct_setAdd: "distinct xs \<Longrightarrow> distinct (setAdd x xs)"
  by (simp add: setAdd_def)

lemma in_map_update:
  assumes "(k', v) \<in> set (map (\<lambda>(k, v). if k = key then (k, f v) else (k, v)) xs)"
  shows "\<exists>v0. (k', v0) \<in> set xs \<and> v = (if k' = key then f v0 else v0)"
  using assms by (induction xs) (auto split: if_splits)

lemma smInv_addPoint:
  assumes "smInv m S"
  shows "smInv (addPoint aid m pt) (insert (aid, pt) S)"
proof -
  let ?key = "toLowerCase pt"
  let ?m1 = "if ?key \<in> set (map fst m) then m else m @ [(?key, \<lparr>pt_text = pt, pt_papers = []\<rparr>)]"
  let ?upd = "\<lambda>(k, v). if k = ?key then (k, v\<lparr>pt_papers := setAdd aid (pt_papers v)\<rparr>) else (k, v)"
  have ap: "addPoint aid m pt = map ?upd ?m1"
    by (simp add: addPoint_def Let_def)
  have fst_upd: "map fst (map ?upd xs) = map fst xs" for xs :: sentenceMap
    by (induction xs) (auto split: prod.splits)
  from assms have d: "distinct (map fst m)"
    and k: "fst ` set m = (\<lambda>(aid, pt). toLowerCase pt) ` S"
    by (simp_all add: smInv_def)
  have e: "toLowerCase (pt_text v) = k \<and> distinct (pt_papers v) \<and>
        set (pt_papers v) = {aid. \<exists>pt. (aid, pt) \<in> S \<and> toLowerCase pt = k}"
    if "(k, v) \<in> set m" for k v
    using assms that unfolding smInv_def by blast
  have d1: "distinct (map fst ?m1)" using d by auto
  have k1: "fst ` set ?m1 = insert ?key (fst ` set m)" by auto
  have e1: "toLowerCase (pt_text v) = k \<and> distinct (pt_papers v) \<and>
        set (pt_papers v) = {aid. \<exists>pt. (aid, pt) \<in> S \<and> toLowerCase pt = k}"
    if "(k, v) \<in> set ?m1" for k v
  proof (cases "(k, v) \<in> set m")
    case True
    then show ?thesis by (rule e)
  next
    case False
    with that have n: "?key \<notin> fst ` set m" "k = ?key" "v = \<lparr>pt_text = pt, pt_papers = []\<rparr>"
      by (auto split: if_splits)
    with k have "\<not> (\<exists>a p. (a, p) \<in> S \<and> toLowerCase p = ?key)"
      by (metis (mono_tags, lifting) case_prod_conv image_eqI)
    with n show ?thesis by auto
  qed
  have "distinct (map fst (addPoint aid m pt))"
    unfolding ap fst_upd by (rule d1)
  moreover have "fst ` set (addPoint aid m pt) = (\<lambda>(aid, pt). toLowerCase pt) ` insert (aid, pt) S"
  proof -
    have "fst ` set (addPoint aid m pt) = set (map fst (addPoint aid m pt))" by simp
    also have "\<dots> = set (map fst ?m1)" unfolding ap fst_upd ..
    also have "\<dots> = insert ?key (fst ` set m)" using k1 by simp
    finally show ?thesis using k by simp
  qed
  moreover have "toLowerCase (pt_text v) = k' \<and> distinct (pt_papers v) \<and>
        set (pt_papers v) = {a. \<exists>p. (a, p) \<in> insert (aid, pt) S \<and> toLowerCase p = k'}"
    if "(k', v) \<in> set (addPoint aid m pt)" for k' v
  proof -
    from that have "(k', v) \<in> set (map (\<lambda>(k, v). if k = ?key
        then (k, (\<lambda>w. w\<lparr>pt_papers := setAdd aid (pt_papers w)\<rparr>) v) else (k, v)) ?m1)"
      unfolding ap by simp
    from in_map_update[OF this] obtain v0 where v0: "(k', v0) \<in> set ?m1"
      "v = (if k' = ?key then v0\<lparr>pt_papers := setAdd aid (pt_papers v0)\<rparr> else v0)"
      by blast
    from e1[OF v0(1)] have h: "toLowerCase (pt_text v0) = k'" "distinct (pt_papers v0)"
      "set (pt_papers v0) = {a. \<exists>p. (a, p) \<in> S \<and> toLowerCase p = k'}"
      by auto
    show ?thesis
    proof (cases "k' = ?key")
      case True
      with v0(2) h show ?thesis
        by (auto simp: set_setAdd distinct_setAdd)
    next
      case False
      with v0(2) h show ?thesis by auto
    qed
  qed
  ultimately show ?thesis unfolding smInv_def by blast
qed

lemma smInv_addPoints:
  "smInv m S \<Longrightarrow> smInv (foldl (addPoint aid) m pts) (S \<union> {aid} \<times> set pts)"
proof (induction pts arbitrary: m S)
  case Nil
  then show ?case by simp
next
  case (Cons pt pts)
  from smInv_addPoint[OF Cons.prems] Cons.IH
  have "smInv (foldl (addPoint aid) (addPoint aid m pt) pts) (insert (aid, pt) S \<union> {aid} \<times> set pts)"
    by blast
  moreover have "insert (aid, pt) S \<union> {aid} \<times> set pts = S \<union> {aid} \<times> set (pt # pts)"
    by auto
  ultimately show ?case by simp
qed

lemma smInv_addPapers:
  "smInv m S \<Longrightarrow>
   smInv (foldl addPaper m als)
     (S \<union> (\<Union>a \<in> set als. {a_id a} \<times> set (extractPoints (Some (a_text a)))))"
proof (induction als arbitrary: m S)
  case Nil
  then show ?case by simp
next
  case (Cons a als)
  have "smInv (addPaper m a) (S \<union> {a_id a} \<times> set (extractPoints (Some (a_text a))))"
    unfolding addPaper_def by (rule smInv_addPoints[OF Cons.prems])
  from Cons.IH[OF this] show ?case
    by (simp add: Un_assoc)
qed

lemma smInv_buildSentenceMap:
  "smInv (buildSentenceMap als)
     (\<Union>a \<in> set als. {a_id a} \<times> set (extractPoints (Some (a_text a))))"
proof -
  have "smInv [] {}" by (simp add: smInv_def)
  from smInv_addPapers[OF this, of als] show ?thesis
    by (simp add: buildSentenceMap_def)
qed

text \<open>What the invariant says of the finished map, in terms of \<open>keysOf\<close> and \<open>owners\<close>.\<close>

lemma sentenceMap_keys:
  "fst ` set (buildSentenceMap als) = (\<Union>a \<in> set als. keysOf a)"
proof -
  from smInv_buildSentenceMap[of als]
  have "fst ` set (buildSentenceMap als)
      = (\<lambda>(aid, pt). toLowerCase pt) ` (\<Union>a \<in> set als. {a_id a} \<times> set (extractPoints (Some (a_text a))))"
    by (simp add: smInv_def)
  also have "\<dots> = (\<Union>a \<in> set als. keysOf a)"
    by (auto simp: keysOf_def image_iff)
  finally show ?thesis .
qed

lemma sentenceMap_entry:
  assumes "(k, v) \<in> set (buildSentenceMap als)"
  shows "toLowerCase (pt_text v) = k" "distinct (pt_papers v)" "set (pt_papers v) = owners als k"
proof -
  from smInv_buildSentenceMap[of als] assms
  have h: "toLowerCase (pt_text v) = k \<and> distinct (pt_papers v) \<and>
     set (pt_papers v) = {aid. \<exists>pt. (aid, pt) \<in> (\<Union>a \<in> set als. {a_id a} \<times> set (extractPoints (Some (a_text a))))
        \<and> toLowerCase pt = k}"
    unfolding smInv_def by blast
  then show "toLowerCase (pt_text v) = k" "distinct (pt_papers v)" by simp_all
  have "{aid. \<exists>pt. (aid, pt) \<in> (\<Union>a \<in> set als. {a_id a} \<times> set (extractPoints (Some (a_text a))))
        \<and> toLowerCase pt = k} = owners als k"
    by (auto simp: owners_def keysOf_def image_iff)
  with h show "set (pt_papers v) = owners als k" by simp
qed

lemma sentenceMap_distinct: "distinct (map fst (buildSentenceMap als))"
  using smInv_buildSentenceMap[of als] by (simp add: smInv_def)

lemma sentenceMap_text_inj:
  assumes "(k, v) \<in> set (buildSentenceMap als)" "(k', v') \<in> set (buildSentenceMap als)"
    "pt_text v = pt_text v'"
  shows "k = k' \<and> v = v'"
proof -
  from sentenceMap_entry(1)[OF assms(1)] sentenceMap_entry(1)[OF assms(2)] assms(3)
  have "k = k'" by simp
  moreover from this assms(1,2) sentenceMap_distinct[of als] have "v = v'"
    by (metis eq_key_imp_eq_value)
  ultimately show ?thesis by simp
qed


lemma objSet_fresh:
  assumes "\<forall>(k, v) \<in> set u. v = []"
  shows "objSet k [] u = (if k \<in> fst ` set u then u else u @ [(k, [])])"
proof -
  have "map (\<lambda>(k', v'). if k' = k then (k', []) else (k', v')) u = u"
    using assms by (induction u) auto
  then show ?thesis by (simp add: objSet_def)
qed

lemma initUnique_fold:
  fixes u :: "(jsstring \<times> jsstring list) list"
  assumes "\<forall>(k, v) \<in> set u. v = []" "distinct (map fst u)"
  shows "(\<forall>(k, v) \<in> set (foldl (\<lambda>u a. objSet (a_id a) [] u) u als). v = [])
     \<and> distinct (map fst (foldl (\<lambda>u a. objSet (a_id a) [] u) u als))
     \<and> fst ` set (foldl (\<lambda>u a. objSet (a_id a) [] u) u als) = fst ` set u \<union> a_id ` set als"
  using assms
proof (induction als arbitrary: u)
  case Nil
  then show ?case by simp
next
  case (Cons a als)
  let ?u = "objSet (a_id a) [] u"
  have u: "?u = (if a_id a \<in> fst ` set u then u else u @ [(a_id a, [])])"
    by (rule objSet_fresh[OF Cons.prems(1)])
  have 1: "\<forall>(k, v) \<in> set ?u. v = []" using Cons.prems(1) by (auto simp: u)
  have 2: "distinct (map fst ?u)" using Cons.prems(2) by (auto simp: u)
  have 3: "fst ` set ?u = insert (a_id a) (fst ` set u)" by (auto simp: u)
  from Cons.IH[OF 1 2] 3 show ?case by auto
qed

lemma initUnique_empty: "\<forall>(k, v) \<in> set (initUnique als). v = []"
  using initUnique_fold[of "[]" als] by (simp add: initUnique_def)

lemma initUnique_distinct: "distinct (map fst (initUnique als))"
  using initUnique_fold[of "[]" als] by (simp add: initUnique_def)

lemma initUnique_keys: "fst ` set (initUnique als) = a_id ` set als"
  using initUnique_fold[of "[]" als] by (simp add: initUnique_def)

text \<open>
  The loop over the entries: it raises only if a paper set of size one names a paper
  that has no property in \<open>unique\<close>; otherwise it appends to \<open>common\<close> the texts owned
  by \<open>n\<close> papers and to \<open>unique[P]\<close> the texts owned by \<open>P\<close> alone.
\<close>

lemma classify_result:
  assumes "\<forall>(k, v) \<in> set es. length (pt_papers v) = 1 \<longrightarrow> hd (pt_papers v) \<in> fst ` set (unique d)"
  shows "classify n es d =
     Inr \<lparr>common = common d @ commonTexts n es,
          unique = map (\<lambda>(P, l). (P, l @ uniqueTexts n es P)) (unique d)\<rparr>"
  using assms
proof (induction es arbitrary: d)
  case Nil
  have "map (\<lambda>(P, l). (P, l)) (unique d) = unique d" by (induction "unique d") auto
  then show ?case by (simp add: commonTexts_def uniqueTexts_def)
next
  case (Cons e es)
  obtain k v where e: "e = (k, v)" by (cases e)
  show ?case
  proof (cases "length (pt_papers v) = n")
    case True
    let ?d = "d\<lparr>common := common d @ [pt_text v]\<rparr>"
    have "\<forall>(k', w) \<in> set es. length (pt_papers w) = 1 \<longrightarrow> hd (pt_papers w) \<in> fst ` set (unique ?d)"
      using Cons.prems by simp
    from Cons.IH[OF this] have "classify n es ?d =
        Inr \<lparr>common = common ?d @ commonTexts n es,
             unique = map (\<lambda>(P, l). (P, l @ uniqueTexts n es P)) (unique ?d)\<rparr>" .
    moreover have "commonTexts n (e # es) = pt_text v # commonTexts n es"
      using True by (simp add: commonTexts_def e)
    moreover have "uniqueTexts n (e # es) P = uniqueTexts n es P" for P
      using True by (simp add: uniqueTexts_def e)
    ultimately show ?thesis using True by (simp add: e)
  next
    case n: False
    then have c: "commonTexts n (e # es) = commonTexts n es"
      by (simp add: commonTexts_def e)
    show ?thesis
    proof (cases "length (pt_papers v) = 1")
      case False
      have "\<forall>(k', w) \<in> set es. length (pt_papers w) = 1 \<longrightarrow> hd (pt_papers w) \<in> fst ` set (unique d)"
        using Cons.prems by simp
      from Cons.IH[OF this] have "classify n es d =
        Inr \<lparr>common = common d @ commonTexts n es,
             unique = map (\<lambda>(P, l). (P, l @ uniqueTexts n es P)) (unique d)\<rparr>" .
      moreover from False have "pt_papers v \<noteq> [P]" for P by auto
      then have "uniqueTexts n (e # es) P = uniqueTexts n es P" for P
        by (simp add: uniqueTexts_def e)
      ultimately show ?thesis using n False c by (simp add: e)
    next
      case True
      then obtain only where only: "pt_papers v = [only]"
        by (cases "pt_papers v") auto
      with Cons.prems have m: "only \<in> fst ` set (unique d)" by (simp add: e)
      let ?u = "map (\<lambda>(k', v'). if k' = only then (k', v' @ [pt_text v]) else (k', v')) (unique d)"
      let ?d = "d\<lparr>unique := ?u\<rparr>"
      have p: "objPush (hd (pt_papers v)) (pt_text v) (unique d) = Inr ?u"
        using m only by (simp add: objPush_def)
      have "fst ` set ?u = fst ` set (unique d)" by force
      then have "\<forall>(k', w) \<in> set es. length (pt_papers w) = 1 \<longrightarrow> hd (pt_papers w) \<in> fst ` set (unique ?d)"
        using Cons.prems by simp
      from Cons.IH[OF this] have r: "classify n es ?d =
        Inr \<lparr>common = common ?d @ commonTexts n es,
             unique = map (\<lambda>(P, l). (P, l @ uniqueTexts n es P)) (unique ?d)\<rparr>" .
      have u: "uniqueTexts n (e # es) P = (if P = only then [pt_text v] else []) @ uniqueTexts n es P" for P
        using n only by (auto simp: uniqueTexts_def e)
      have "map (\<lambda>(P, l). (P, l @ uniqueTexts n es P)) ?u
          = map (\<lambda>(P, l). (P, l @ uniqueTexts n (e # es) P)) (unique d)"
        by (simp add: u) (auto split: prod.splits)
      with r c have "classify n es ?d =
        Inr \<lparr>common = common d @ commonTexts n (e # es),
             unique = map (\<lambda>(P, l). (P, l @ uniqueTexts n (e # es) P)) (unique d)\<rparr>"
        by simp
      moreover have "classify n (e # es) d = classify n es ?d"
        using n True p by (simp add: e)
      ultimately show ?thesis by simp
    qed
  qed
qed

lemma map_of_keyed:
  "map_of (map (\<lambda>(k, v). (k, g k)) xs) P = (if P \<in> fst ` set xs then Some (g P) else None)"
  by (induction xs) auto

lemma keyed_values:
  assumes "\<forall>(k, v) \<in> set u. v = []"
  shows "map (\<lambda>(P, l). (P, l @ g P)) u = map (\<lambda>(P, l). (P, g P)) u"
  using assms by (induction u) auto

lemma alignedOf_ids: "map a_id (alignedOf ps selected) = map (\<lambda>s. jsString (p_id s)) selected"
  by (simp add: alignedOf_def align_def comp_def)

lemma owners_ids: "owners als k \<subseteq> a_id ` set als"
  by (auto simp: owners_def)

text \<open>The result of \<open>computeDiffs\<close> when \<open>papers\<close> is an array: it never raises.\<close>

lemma computeDiffs_result:
  assumes "cr_papers c = Arr ps"
  shows "computeDiffs (Some c) selected =
     Inr \<lparr>common = commonTexts (length selected) (buildSentenceMap (alignedOf ps selected)),
          unique = map (\<lambda>(P, l). (P, uniqueTexts (length selected)
                                      (buildSentenceMap (alignedOf ps selected)) P))
                    (initUnique (alignedOf ps selected))\<rparr>"
proof -
  let ?als = "alignedOf ps selected"
  let ?sm = "buildSentenceMap ?als"
  let ?d0 = "\<lparr>common = [], unique = initUnique ?als\<rparr>"
  have len: "length ?als = length selected" by (simp add: alignedOf_def)
  have pre: "\<forall>(k, v) \<in> set ?sm. length (pt_papers v) = 1 \<longrightarrow> hd (pt_papers v) \<in> fst ` set (unique ?d0)"
  proof (clarify)
    fix k v
    assume kv: "(k, v) \<in> set ?sm" and l: "length (pt_papers v) = 1"
    from l have "hd (pt_papers v) \<in> set (pt_papers v)" by (cases "pt_papers v") auto
    with sentenceMap_entry(3)[OF kv] owners_ids[of ?als k]
    show "hd (pt_papers v) \<in> fst ` set (unique ?d0)"
      by (auto simp: initUnique_keys)
  qed
  have "computeDiffs (Some c) selected = classify (length selected) ?sm ?d0"
    using assms by (simp add: computeDiffs_def Let_def len)
  also have "\<dots> = Inr \<lparr>common = common ?d0 @ commonTexts (length selected) ?sm,
          unique = map (\<lambda>(P, l). (P, l @ uniqueTexts (length selected) ?sm P)) (unique ?d0)\<rparr>"
    by (rule classify_result[OF pre])
  also have "map (\<lambda>(P, l). (P, l @ uniqueTexts (length selected) ?sm P)) (unique ?d0)
      = map (\<lambda>(P, l). (P, uniqueTexts (length selected) ?sm P)) (initUnique ?als)"
    using keyed_values[OF initUnique_empty] by simp
  finally show ?thesis by simp
qed


text \<open>
  C9: when the comparison result has a \<open>papers\<close> array, \<open>computeDiffs\<close> returns, and the
  properties of \<open>unique\<close> are the string-coerced ids of the selected papers, each once,
  whether or not the paper contributed a unique point.
\<close>

theorem unique_has_one_key_per_selected:
  assumes "cr_papers c = Arr ps"
  shows "\<exists>d. computeDiffs (Some c) selected = Inr d
           \<and> distinct (map fst (unique d))
           \<and> set (map fst (unique d)) = (\<lambda>s. jsString (p_id s)) ` set selected"
proof -
  let ?als = "alignedOf ps selected"
  let ?u = "map (\<lambda>(P, l). (P, uniqueTexts (length selected) (buildSentenceMap ?als) P)) (initUnique ?als)"
  let ?d = "\<lparr>common = commonTexts (length selected) (buildSentenceMap ?als), unique = ?u\<rparr>"
  have k: "map fst ?u = map fst (initUnique ?als)"
    by (induction "initUnique ?als") auto
  have "set (map fst (initUnique ?als)) = a_id ` set ?als"
    using initUnique_keys[of ?als] by simp
  also have "\<dots> = set (map a_id ?als)" by simp
  also have "\<dots> = (\<lambda>s. jsString (p_id s)) ` set selected"
    by (simp only: alignedOf_ids set_map)
  finally have "set (map fst (unique ?d)) = (\<lambda>s. jsString (p_id s)) ` set selected"
    by (simp only: k diffs.simps)
  moreover have "distinct (map fst (unique ?d))"
    using initUnique_distinct[of ?als] by (simp only: k diffs.simps)
  moreover have "computeDiffs (Some c) selected = Inr ?d"
    by (rule computeDiffs_result[OF assms])
  ultimately show ?thesis by blast
qed

theorem unique_has_one_key_per_selected_witness:
  "cr_papers (withPapers (Arr [])) = Arr []
   \<and> computeDiffs (Some (withPapers (Arr []))) [paperB, paperC]
       = Inr \<lparr>common = [lit ''models improve performance significantly.'',
                        lit ''Uses convolution in every layer.''],
              unique = [(lit ''b2'', []), (lit ''3'', [])]\<rparr>
   \<and> (\<exists>d. computeDiffs (Some (withPapers (Arr []))) [paperB, paperC] = Inr d
           \<and> distinct (map fst (unique d))
           \<and> set (map fst (unique d)) = (\<lambda>s. jsString (p_id s)) ` set [paperB, paperC])"
proof -
  have 1: "cr_papers (withPapers (Arr [])) = Arr []" by code_simp
  have 2: "computeDiffs (Some (withPapers (Arr []))) [paperB, paperC]
       = Inr \<lparr>common = [lit ''models improve performance significantly.'',
                        lit ''Uses convolution in every layer.''],
              unique = [(lit ''b2'', []), (lit ''3'', [])]\<rparr>"
    by code_simp
  from unique_has_one_key_per_selected[OF 1, of "[paperB, paperC]"] 1 2 show ?thesis
    by blast
qed

text \<open>
  C1 as stated fails for a selection of one paper: each of its points is owned by
  exactly that paper, the size of its paper set equals the number of selected papers,
  and the point goes to \<open>common\<close>; \<open>unique\<close> for the paper stays empty.
\<close>

theorem single_selection_counterexample:
  "computeDiffs (Some (withPapers (Arr []))) [paperA]
     = Inr \<lparr>common = [lit ''Models improve performance significantly.'',
                      lit ''Uses transformers in every layer.''],
            unique = [(lit ''1'', [])]\<rparr>
   \<and> buildSentenceMap (alignedOf [] [paperA])
     = [(lit ''models improve performance significantly.'',
         \<lparr>pt_text = lit ''Models improve performance significantly.'', pt_papers = [lit ''1'']\<rparr>),
        (lit ''uses transformers in every layer.'',
         \<lparr>pt_text = lit ''Uses transformers in every layer.'', pt_papers = [lit ''1'']\<rparr>)]"
  by code_simp

lemma in_commonTexts:
  assumes "(k, v) \<in> set (buildSentenceMap als)"
  shows "pt_text v \<in> set (commonTexts n (buildSentenceMap als)) \<longleftrightarrow> length (pt_papers v) = n"
proof
  assume "pt_text v \<in> set (commonTexts n (buildSentenceMap als))"
  then obtain k' v' where h: "(k', v') \<in> set (buildSentenceMap als)" "pt_text v' = pt_text v"
    "length (pt_papers v') = n"
    by (auto simp: commonTexts_def)
  with sentenceMap_text_inj[OF assms h(1) h(2)[symmetric]] show "length (pt_papers v) = n" by simp
next
  assume "length (pt_papers v) = n"
  with assms show "pt_text v \<in> set (commonTexts n (buildSentenceMap als))"
    by (force simp: commonTexts_def)
qed

lemma in_uniqueTexts:
  assumes "(k, v) \<in> set (buildSentenceMap als)"
  shows "pt_text v \<in> set (uniqueTexts n (buildSentenceMap als) P)
     \<longleftrightarrow> length (pt_papers v) \<noteq> n \<and> pt_papers v = [P]"
proof
  assume "pt_text v \<in> set (uniqueTexts n (buildSentenceMap als) P)"
  then obtain k' v' where h: "(k', v') \<in> set (buildSentenceMap als)" "pt_text v' = pt_text v"
    "length (pt_papers v') \<noteq> n \<and> pt_papers v' = [P]"
    by (auto simp: uniqueTexts_def)
  with sentenceMap_text_inj[OF assms h(1) h(2)[symmetric]]
  show "length (pt_papers v) \<noteq> n \<and> pt_papers v = [P]"
    by auto
next
  assume "length (pt_papers v) \<noteq> n \<and> pt_papers v = [P]"
  with assms show "pt_text v \<in> set (uniqueTexts n (buildSentenceMap als) P)"
    by (force simp: uniqueTexts_def)
qed

lemma singleton_list:
  assumes "distinct xs" "set xs = {P}"
  shows "xs = [P]"
proof (cases xs)
  case Nil
  with assms show ?thesis by simp
next
  case (Cons a list)
  with assms have "a = P" "set list \<subseteq> {P}" "P \<notin> set list" by auto
  then have "list = []" by (cases list) auto
  with Cons \<open>a = P\<close> show ?thesis by simp
qed

lemma card_owners:
  assumes "distinct (map a_id als)"
  shows "card (owners als k) = length (filter (\<lambda>a. k \<in> keysOf a) als)"
proof -
  have "owners als k = set (map a_id (filter (\<lambda>a. k \<in> keysOf a) als))"
    by (auto simp: owners_def)
  moreover have "distinct (map a_id (filter (\<lambda>a. k \<in> keysOf a) als))"
    using assms by (rule distinct_map_filter)
  ultimately show ?thesis by (metis distinct_card length_map)
qed

text \<open>
  C1, amended to selections of at least two papers with distinct string-coerced ids:
  \<open>computeDiffs\<close> returns; the entries of \<open>sentenceMap\<close> are the normalized points of the
  selected papers; and for every entry with key \<open>k\<close>, whose paper set is the set of ids of
  the papers that contain \<open>k\<close> and has as many members as there are such papers, the
  display text is in \<open>common\<close> iff that number is the number of selected papers, is in
  \<open>unique[P]\<close> iff the owning set is \<open>{P}\<close>, and is in neither when the number lies
  strictly between 1 and the number of selected papers.
\<close>

theorem computeDiffs_common_unique:
  assumes "cr_papers c = Arr ps"
    and "distinct (map (\<lambda>s. jsString (p_id s)) selected)"
    and "2 \<le> length selected"
  shows "\<exists>d. computeDiffs (Some c) selected = Inr d \<and>
     fst ` set (buildSentenceMap (alignedOf ps selected)) = (\<Union>a \<in> set (alignedOf ps selected). keysOf a) \<and>
     (\<forall>(k, v) \<in> set (buildSentenceMap (alignedOf ps selected)).
        toLowerCase (pt_text v) = k \<and>
        set (pt_papers v) = owners (alignedOf ps selected) k \<and>
        card (owners (alignedOf ps selected) k)
          = length (filter (\<lambda>a. k \<in> keysOf a) (alignedOf ps selected)) \<and>
        (pt_text v \<in> set (common d) \<longleftrightarrow> card (owners (alignedOf ps selected) k) = length selected) \<and>
        (\<forall>P. pt_text v \<in> set (uniqueOf d P) \<longleftrightarrow> owners (alignedOf ps selected) k = {P}) \<and>
        (1 < card (owners (alignedOf ps selected) k) \<and>
         card (owners (alignedOf ps selected) k) < length selected \<longrightarrow>
           pt_text v \<notin> set (common d) \<and> (\<forall>P. pt_text v \<notin> set (uniqueOf d P))))"
proof -
  let ?als = "alignedOf ps selected"
  let ?sm = "buildSentenceMap ?als"
  let ?n = "length selected"
  let ?d = "\<lparr>common = commonTexts ?n ?sm,
            unique = map (\<lambda>(P, l). (P, uniqueTexts ?n ?sm P)) (initUnique ?als)\<rparr>"
  have r: "computeDiffs (Some c) selected = Inr ?d" by (rule computeDiffs_result[OF assms(1)])
  have dist: "distinct (map a_id ?als)" using assms(2) by (simp add: alignedOf_ids)
  have uo: "uniqueOf ?d P = (if P \<in> a_id ` set ?als then uniqueTexts ?n ?sm P else [])" for P
    by (simp add: uniqueOf_def map_of_keyed initUnique_keys)
  have e: "toLowerCase (pt_text v) = k \<and>
        set (pt_papers v) = owners ?als k \<and>
        card (owners ?als k) = length (filter (\<lambda>a. k \<in> keysOf a) ?als) \<and>
        (pt_text v \<in> set (common ?d) \<longleftrightarrow> card (owners ?als k) = ?n) \<and>
        (\<forall>P. pt_text v \<in> set (uniqueOf ?d P) \<longleftrightarrow> owners ?als k = {P}) \<and>
        (1 < card (owners ?als k) \<and> card (owners ?als k) < ?n \<longrightarrow>
           pt_text v \<notin> set (common ?d) \<and> (\<forall>P. pt_text v \<notin> set (uniqueOf ?d P)))"
    if kv: "(k, v) \<in> set ?sm" for k v
  proof -
    note en = sentenceMap_entry[OF kv]
    have len: "length (pt_papers v) = card (owners ?als k)"
      using en(2,3) by (metis distinct_card)
    have c: "pt_text v \<in> set (common ?d) \<longleftrightarrow> card (owners ?als k) = ?n"
      using in_commonTexts[OF kv, of ?n] len by simp
    have u: "pt_text v \<in> set (uniqueOf ?d P) \<longleftrightarrow> owners ?als k = {P}" for P
    proof
      assume "pt_text v \<in> set (uniqueOf ?d P)"
      then have "pt_text v \<in> set (uniqueTexts ?n ?sm P)"
        by (simp add: uo split: if_splits)
      with in_uniqueTexts[OF kv, of ?n P] have "pt_papers v = [P]" by simp
      with en(3) show "owners ?als k = {P}" by simp
    next
      assume o: "owners ?als k = {P}"
      with en(2,3) have "distinct (pt_papers v)" "set (pt_papers v) = {P}" by simp_all
      then have p: "pt_papers v = [P]" by (rule singleton_list)
      with assms(3) have "length (pt_papers v) \<noteq> ?n" by simp
      with p in_uniqueTexts[OF kv, of ?n P] have "pt_text v \<in> set (uniqueTexts ?n ?sm P)" by simp
      moreover from o owners_ids[of ?als k] have "P \<in> a_id ` set ?als" by auto
      ultimately show "pt_text v \<in> set (uniqueOf ?d P)" by (simp add: uo)
    qed
    have "card (owners ?als k) = 1" if "pt_text v \<in> set (uniqueOf ?d P)" for P
      using u[of P] that by simp
    then have b: "1 < card (owners ?als k) \<and> card (owners ?als k) < ?n \<longrightarrow>
           pt_text v \<notin> set (common ?d) \<and> (\<forall>P. pt_text v \<notin> set (uniqueOf ?d P))"
      using c u by auto
    from en(1,3) card_owners[OF dist, of k] c u b show ?thesis by blast
  qed
  have "fst ` set ?sm = (\<Union>a \<in> set ?als. keysOf a)" by (rule sentenceMap_keys)
  with r e show ?thesis by blast
qed

theorem computeDiffs_common_unique_witness:
  "cr_papers (withPapers (Arr [])) = Arr []
   \<and> distinct (map (\<lambda>s. jsString (p_id s)) [paperA, paperB])
   \<and> 2 \<le> length [paperA, paperB]
   \<and> computeDiffs (Some (withPapers (Arr []))) [paperA, paperB]
       = Inr \<lparr>common = [lit ''Models improve performance significantly.''],
              unique = [(lit ''1'', [lit ''Uses transformers in every layer.'']),
                        (lit ''b2'', [lit ''Uses convolution in every layer.''])]\<rparr>
   \<and> (\<exists>d. computeDiffs (Some (withPapers (Arr []))) [paperA, paperB] = Inr d \<and>
     fst ` set (buildSentenceMap (alignedOf [] [paperA, paperB]))
       = (\<Union>a \<in> set (alignedOf [] [paperA, paperB]). keysOf a) \<and>
     (\<forall>(k, v) \<in> set (buildSentenceMap (alignedOf [] [paperA, paperB])).
        toLowerCase (pt_text v) = k \<and>
        set (pt_papers v) = owners (alignedOf [] [paperA, paperB]) k \<and>
        card (owners (alignedOf [] [paperA, paperB]) k)
          = length (filter (\<lambda>a. k \<in> keysOf a) (alignedOf [] [paperA, paperB])) \<and>
        (pt_text v \<in> set (common d)
           \<longleftrightarrow> card (owners (alignedOf [] [paperA, paperB]) k) = length [paperA, paperB]) \<and>
        (\<forall>P. pt_text v \<in> set (uniqueOf d P) \<longleftrightarrow> owners (alignedOf [] [paperA, paperB]) k = {P}) \<and>
        (1 < card (owners (alignedOf [] [paperA, paperB]) k) \<and>
         card (owners (alignedOf [] [paperA, paperB]) k) < length [paperA, paperB] \<longrightarrow>
           pt_text v \<notin> set (common d) \<and> (\<forall>P. pt_text v \<notin> set (uniqueOf d P)))))"
proof -
  have 1: "cr_papers (withPapers (Arr [])) = Arr []" by code_simp
  have 2: "distinct (map (\<lambda>s. jsString (p_id s)) [paperA, paperB])" by code_simp
  have 3: "2 \<le> length [paperA, paperB]" by simp
  have 4: "computeDiffs (Some (withPapers (Arr []))) [paperA, paperB]
       = Inr \<lparr>common = [lit ''Models improve performance significantly.''],
              unique = [(lit ''1'', [lit ''Uses transformers in every layer.'']),
                        (lit ''b2'', [lit ''Uses convolution in every layer.''])]\<rparr>"
    by code_simp
  from computeDiffs_common_unique[OF 1 2 3] 1 2 3 4 show ?thesis by blast
qed






section \<open>Properties of RecommendationAggregator\<close>

text \<open>
  C4: the saved paper \<open>savedX\<close> has no \<open>id\<close> and the \<open>paper_id\<close> X1, so its derived
  identifier is X1 while \<open>savedIds\<close> holds \<open>String(undefined)\<close>; the search returns the
  same paper for every seed, and the fallback recommends it.
\<close>

theorem saved_paper_recommended:
  "r_topics (fallback savedProfile alwaysX) = [lit ''deep'', lit ''learning'']
   \<and> r_papers (fallback savedProfile alwaysX) = [savedX]
   \<and> map derivedId (r_papers (fallback savedProfile alwaysX)) = [lit ''X1'']
   \<and> map derivedId (orEmpty (savedPapers savedProfile)) = [lit ''X1'']
   \<and> map (\<lambda>p. jsString (p_id p)) (orEmpty (savedPapers savedProfile)) = [lit ''undefined'']"
  by code_simp

text \<open>
  What does hold of the merge: a candidate is never a paper whose derived identifier is
  in \<open>savedIds\<close>, and no two candidates have the same derived identifier.
\<close>

lemma mergeList_inv:
  assumes "distinct (map derivedId cand)" "\<forall>p \<in> set cand. derivedId p \<notin> set savedIds"
  shows "distinct (map derivedId (fst (mergeList savedIds cand l)))
       \<and> (\<forall>p \<in> set (fst (mergeList savedIds cand l)). derivedId p \<notin> set savedIds)"
  using assms
proof (induction savedIds cand l rule: mergeList.induct)
  case (1 savedIds cand)
  then show ?case by simp
next
  case (2 savedIds cand ps)
  then show ?case by simp
next
  case (3 savedIds cand p ps)
  show ?case
  proof (cases "derivedId p \<notin> set savedIds \<and> \<not> list_ex (\<lambda>cp. derivedId cp = derivedId p) cand")
    case True
    then have "distinct (map derivedId (cand @ [p]))" "\<forall>q \<in> set (cand @ [p]). derivedId q \<notin> set savedIds"
      using "3.prems" by (auto simp: list_ex_iff)
    from "3.IH"(1)[OF refl True this]
    have "distinct (map derivedId (fst (mergeList savedIds (cand @ [p]) ps)))
       \<and> (\<forall>q \<in> set (fst (mergeList savedIds (cand @ [p]) ps)). derivedId q \<notin> set savedIds)" .
    moreover from True have "mergeList savedIds cand (Some p # ps) = mergeList savedIds (cand @ [p]) ps"
      by (auto simp: Let_def)
    ultimately show ?thesis by metis
  next
    case False
    from "3.IH"(2)[OF refl False "3.prems"]
    have "distinct (map derivedId (fst (mergeList savedIds cand ps)))
       \<and> (\<forall>q \<in> set (fst (mergeList savedIds cand ps)). derivedId q \<notin> set savedIds)" .
    moreover from False have "mergeList savedIds cand (Some p # ps) = mergeList savedIds cand ps"
      by (auto simp: Let_def)
    ultimately show ?thesis by metis
  qed
qed

lemma mergeResults_inv:
  assumes "distinct (map derivedId cand)" "\<forall>p \<in> set cand. derivedId p \<notin> set savedIds"
  shows "distinct (map derivedId (mergeResults savedIds cand rs))
       \<and> (\<forall>p \<in> set (mergeResults savedIds cand rs). derivedId p \<notin> set savedIds)"
  using assms
proof (induction savedIds cand rs rule: mergeResults.induct)
  case (1 savedIds cand)
  then show ?case by simp
next
  case (2 savedIds cand rs)
  then show ?case by simp
next
  case (3 savedIds cand res rs)
  show ?case
  proof (cases "listOf res")
    case (Inl e)
    with "3.prems" show ?thesis by simp
  next
    case (Inr l)
    obtain cand' b where m: "mergeList savedIds cand l = (cand', b)" by (cases "mergeList savedIds cand l")
    from mergeList_inv[OF "3.prems", of l] m
    have i: "distinct (map derivedId cand')" "\<forall>p \<in> set cand'. derivedId p \<notin> set savedIds"
      by simp_all
    show ?thesis
    proof (cases b)
      case True
      with Inr m i show ?thesis by simp
    next
      case False
      with "3.IH"[OF Inr m[symmetric] _ i] Inr m show ?thesis by simp
    qed
  qed
qed

lemma fallback_papers:
  "distinct (map derivedId (r_papers (fallback prof search)))
   \<and> (\<forall>p \<in> set (r_papers (fallback prof search)).
        derivedId p \<notin> (\<lambda>s. jsString (p_id s)) ` set (orEmpty (savedPapers prof)))
   \<and> length (r_papers (fallback prof search)) \<le> 10"
proof -
  let ?ids = "map (\<lambda>p. jsString (p_id p)) (orEmpty (savedPapers prof))"
  let ?c = "mergeResults ?ids [] (map search (take 4 (topicsOf (wordFreq (texts prof)))))"
  have "distinct (map derivedId ?c) \<and> (\<forall>p \<in> set ?c. derivedId p \<notin> set ?ids)"
    by (rule mergeResults_inv) simp_all
  moreover have "r_papers (fallback prof search) = take 10 ?c"
    by (simp add: fallback_def Let_def)
  ultimately show ?thesis
    by (auto simp: distinct_take take_map[symmetric] dest: in_set_takeD)
qed














end
